theory Spec2Isabelle
  imports Complex_Main "HOL-Library.Word"
begin

section \<open>Python errors\<close>

text \<open>
  Every \<^verbatim>\<open>raise\<close> and every failing \<^verbatim>\<open>assert\<close> of the source is a value.
  An assertion failure carries the line of \<^verbatim>\<open>mpnum/povm/mppovm.py\<close> at which the
  \<^verbatim>\<open>assert\<close> stands, so that two assertions of one function can be told apart.
\<close>

datatype py_error =
    AssertionError nat
  | ValueError
  | NameError
  | AttributeError
  | IndexError
  | ZeroDivisionError
  | TypeError

section \<open>Binary64 arithmetic\<close>

text \<open>
  numpy computes on IEEE 754 binary64 numbers. A finite binary64 number is modelled
  by the real number it stands for, and an arithmetic operation returns the exact
  result rounded to the nearest binary64 number, a tie going to the neighbour with
  the even significand. The significand has 53 bits; below \<open>pow2 (-1022)\<close> the
  spacing of the numbers stays \<open>pow2 (-1074)\<close> (gradual underflow). The sign of zero
  is not represented. A result of magnitude \<open>pow2 1024\<close> or more, which binary64
  replaces by an infinity, is rounded like any other; the properties below keep
  their values away from that range. \<^verbatim>\<open>nan\<close> is represented where it can arise.
\<close>

definition pow2 :: "int \<Rightarrow> real" where
  "pow2 e = (if 0 \<le> e then 2 ^ nat e else 1 / 2 ^ nat (- e))"

text \<open>Rounding to the nearest integer, ties to even.\<close>

definition rne :: "real \<Rightarrow> int" where
  "rne x =
     (let f = \<lfloor>x\<rfloor>; r = x - of_int f
      in if r < 1 / 2 then f else if 1 / 2 < r then f + 1 else if even f then f else f + 1)"

definition fl64 :: "real \<Rightarrow> real" where
  "fl64 x =
     (if x = 0 then 0
      else let e = max (\<lfloor>log 2 \<bar>x\<bar>\<rfloor> - 52) (- 1074)
           in of_int (rne (x / pow2 e)) * pow2 e)"

text \<open>The operations of numpy on binary64 numbers that the code uses: \<^verbatim>\<open>+\<close>,
  \<^verbatim>\<open>-\<close>, \<^verbatim>\<open>*\<close>, \<^verbatim>\<open>/\<close>, and \<^verbatim>\<open>np.sqrt\<close>, which is also what \<^verbatim>\<open>x**0.5\<close>
  computes. Division by zero and the root of a negative number are handled by the
  callers.\<close>

definition f64_add :: "real \<Rightarrow> real \<Rightarrow> real" where
  "f64_add x y = fl64 (x + y)"

definition f64_sub :: "real \<Rightarrow> real \<Rightarrow> real" where
  "f64_sub x y = fl64 (x - y)"

definition f64_mul :: "real \<Rightarrow> real \<Rightarrow> real" where
  "f64_mul x y = fl64 (x * y)"

definition f64_div :: "real \<Rightarrow> real \<Rightarrow> real" where
  "f64_div x y = fl64 (x / y)"

definition f64_sqrt :: "real \<Rightarrow> real" where
  "f64_sqrt x = fl64 (sqrt x)"

text \<open>An entry of a complex128 array holds two binary64 numbers; \<^verbatim>\<open>abs\<close> of it
  is the rounded modulus.\<close>

definition c128 :: "complex \<Rightarrow> complex" where
  "c128 z = Complex (fl64 (Re z)) (fl64 (Im z))"

definition np_abs :: "complex \<Rightarrow> real" where
  "np_abs z = fl64 (cmod z)"

text \<open>The product of two complex128 numbers as numpy computes it, from four
  products and two sums; and the quotient of a complex128 number by a binary64
  number \<open>r\<close>, for which numpy multiplies both components by the rounded inverse
  of \<open>r\<close>. A binary64 factor of a complex128 number is first made the complex128
  number without imaginary part.\<close>

definition c128_mul :: "complex \<Rightarrow> complex \<Rightarrow> complex" where
  "c128_mul x y =
     Complex (f64_sub (f64_mul (Re x) (Re y)) (f64_mul (Im x) (Im y)))
             (f64_add (f64_mul (Re x) (Im y)) (f64_mul (Im x) (Re y)))"

definition c128_div_f64 :: "complex \<Rightarrow> real \<Rightarrow> complex" where
  "c128_div_f64 z r =
     (let scl = f64_div 1 r in Complex (f64_mul (Re z) scl) (f64_mul (Im z) scl))"

section \<open>Matrix product arrays\<close>

text \<open>
  A local tensor is a numpy array: its shape and its entries in row-major order.
  The local tensor of an MPArray has the shape
  \<open>[left bond, physical legs ..., right bond]\<close>; an MPArray is the list of its
  local tensors (\<^verbatim>\<open>self._ltens\<close>).
\<close>

record ltens =
  shape :: "nat list"
  dat :: "complex list"

type_synonym mparray = "ltens list"

text \<open>Modelled from the spec: the properties \<^verbatim>\<open>plegs\<close>, \<^verbatim>\<open>pdims\<close> and
  \<^verbatim>\<open>bdims\<close> of the tensor-train class \<^verbatim>\<open>mp.MPArray\<close> (section 3: per-site physical
  legs between two bond legs; adjacent sites share the bond dimension).\<close>

definition plegs :: "mparray \<Rightarrow> nat list" where
  "plegs mpa = map (\<lambda>lt. length (shape lt) - 2) mpa"

definition pdims :: "mparray \<Rightarrow> nat list list" where
  "pdims mpa = map (\<lambda>lt. butlast (tl (shape lt))) mpa"

definition bdims :: "mparray \<Rightarrow> nat list" where
  "bdims mpa = map (\<lambda>lt. shape lt ! 0) (tl mpa)"

text \<open>Modelled from the spec: \<^verbatim>\<open>mp.outer\<close> (section 6, "outer/concatenate across
  sites"): the tensor product of a sequence of MPArrays is the chain of all their
  local tensors.\<close>

definition outer :: "mparray list \<Rightarrow> mparray" where
  "outer mpas = concat mpas"

text \<open>Modelled from the spec: \<^verbatim>\<open>MPArray.from_kron\<close> (section 6, "construct from
  per-site Kronecker factors"): each factor \<open>a\<close> becomes the local tensor
  \<^verbatim>\<open>a[None, ..., None]\<close> with both bond dimensions 1.\<close>

definition from_kron :: "ltens list \<Rightarrow> mparray" where
  "from_kron factors = map (\<lambda>a. \<lparr>shape = [1] @ shape a @ [1], dat = dat a\<rparr>) factors"

section \<open>MPPovm\<close>

text \<open>\<^verbatim>\<open>MPPovm.__init__\<close>: three physical legs at each site, and the two Hilbert
  space legs of equal dimension.\<close>

definition MPPovm_init :: "mparray \<Rightarrow> py_error + mparray" where
  "MPPovm_init mpa =
     (if \<not> (\<forall>p \<in> set (plegs mpa). p = 3) then Inl (AssertionError 50)
      else if \<not> (\<forall>pd \<in> set (pdims mpa). pd ! 1 = pd ! 2) then Inl (AssertionError 52)
      else Inr mpa)"

definition outdims :: "mparray \<Rightarrow> nat list" where
  "outdims self = map (\<lambda>lt. shape lt ! 1) self"

definition nsoutdims :: "mparray \<Rightarrow> nat list" where
  "nsoutdims self = map (\<lambda>lt. shape lt ! 1) (filter (\<lambda>lt. shape lt ! 1 > 1) self)"

definition hdims :: "mparray \<Rightarrow> nat list" where
  "hdims self = map (\<lambda>lt. shape lt ! 2) self"

subsection \<open>Measurement evaluation\<close>

text \<open>Modelled from the spec: the per-site leg permutation and reshape of
  \<^verbatim>\<open>mp.MPArray\<close> (section 6), as \<^verbatim>\<open>probability_map\<close> uses them:
  \<^verbatim>\<open>self.transpose((0, 2, 1)).reshape((pdim[0], -1) for pdim in self.pdims)\<close>
  swaps the two Hilbert legs of each local tensor and merges them into one.\<close>

definition probability_map_lt :: "ltens \<Rightarrow> ltens" where
  "probability_map_lt lt =
     (let bl = shape lt ! 0; od = shape lt ! 1; h1 = shape lt ! 2; h2 = shape lt ! 3;
          br = shape lt ! 4
      in \<lparr>shape = [bl, od, h2 * h1, br],
          dat = concat (map (\<lambda>a. concat (map (\<lambda>i. concat (map (\<lambda>x. concat (map (\<lambda>y.
                  map (\<lambda>e. dat lt ! ((((a * od + i) * h1 + y) * h2 + x) * br + e)) [0..<br])
                [0..<h1])) [0..<h2])) [0..<od])) [0..<bl])\<rparr>)"

text \<open>Modelled from the spec: \<^verbatim>\<open>MPArray.reshape\<close> (section 6, "reshape grouping
  per-site legs") is handed one new shape per site and looks at the first of them
  to tell a single shape from a sequence of shapes. A chain without sites hands it
  no shape at all, and reading the first one raises \<^verbatim>\<open>IndexError\<close>.\<close>

definition probability_map :: "mparray \<Rightarrow> py_error + mparray" where
  "probability_map self =
     (if self = [] then Inl IndexError else Inr (map probability_map_lt self))"

text \<open>
  The state-reduction collaborator \<^verbatim>\<open>mpnum.mpsmpo\<close> and the contraction
  \<^verbatim>\<open>mp.dot\<close> are not part of the sources at hand; \<^verbatim>\<open>expectations\<close> takes them
  as parameters.
\<close>

record collaborators =
  reductions_mps_as_pmps :: "mparray \<Rightarrow> nat \<Rightarrow> mparray list"
  reductions_mpo :: "mparray \<Rightarrow> nat \<Rightarrow> mparray list"
  reductions_pmps :: "mparray \<Rightarrow> nat \<Rightarrow> mparray list"
  pmps_to_mpo :: "mparray \<Rightarrow> mparray"
  ravel :: "mparray \<Rightarrow> mparray"
  dot :: "mparray \<Rightarrow> mparray \<Rightarrow> mparray"

text \<open>A generator is modelled by what it yields, in order, and the exception that
  ends it, if any.\<close>

type_synonym 'a generator = "'a list \<times> py_error option"

text \<open>Lines 215 to 219 of \<^verbatim>\<open>expectations\<close>: the mode that \<^verbatim>\<open>'auto'\<close> stands for.
  Python's \<^verbatim>\<open>all\<close> over no site is true.\<close>

definition expectations_mode :: "string \<Rightarrow> mparray \<Rightarrow> string" where
  "expectations_mode mode mpa =
     (if mode = ''auto'' then
        (if \<forall>pleg \<in> set (plegs mpa). pleg = 1 then ''mps''
         else if \<forall>pleg \<in> set (plegs mpa). pleg = 2 then ''mpdo''
         else mode)
      else mode)"

definition expectations ::
  "collaborators \<Rightarrow> mparray \<Rightarrow> mparray \<Rightarrow> string \<Rightarrow> mparray generator" where
  "expectations c self mpa mode =
     (if \<not> length self \<le> length mpa then ([], Some (AssertionError 214))
      else
        let mode' = expectations_mode mode mpa
        in (case probability_map self of
              Inl e \<Rightarrow> ([], Some e)
            | Inr pmap \<Rightarrow>
                if mode' = ''mps'' then
                  (map (\<lambda>psi_red. dot c pmap (ravel c (pmps_to_mpo c psi_red)))
                     (reductions_mps_as_pmps c mpa (length self)), None)
                else if mode' = ''mpdo'' then
                  (map (\<lambda>rho_red. dot c pmap (ravel c rho_red))
                     (reductions_mpo c mpa (length self)), None)
                else if mode' = ''pmps'' then
                  (map (\<lambda>psi_red. dot c pmap (ravel c (pmps_to_mpo c psi_red)))
                     (reductions_pmps c mpa (length self)), None)
                else ([], Some ValueError)))"

section \<open>MPPovmList\<close>

record MPPovmList =
  mpps :: "mparray list"

text \<open>
  Attribute lookup on an \<^verbatim>\<open>MPPovm\<close> instance: first the names that the class body
  of \<^verbatim>\<open>MPPovm\<close> defines, then those of its base class \<^verbatim>\<open>mp.MPArray\<close>. The
  base class is not part of the sources at hand; its set of attribute names is a
  parameter.
\<close>

definition MPPovm_attrs :: "string list" where
  "MPPovm_attrs =
     [''__init__'', ''outdims'', ''nsoutdims'', ''hdims'', ''elements'',
      ''probability_map'', ''from_local_povm'', ''eye'', ''embed'', ''block'',
      ''repeat'', ''expectations'', ''probab'', ''find_matching_elements'',
      ''_sample_cond_single'', ''_sample_cond'', ''_sample_direct'', ''sample'',
      ''est_fun'', ''_estfun_from_estimator'', ''_fill_out_holes'',
      ''_elemsum_identity'', ''counts_from'', ''count_samples'',
      ''estprob_from_mpplist'']"

datatype attr = Own string | Inherited string

definition MPPovm_getattr :: "(string \<Rightarrow> bool) \<Rightarrow> string \<Rightarrow> py_error + attr" where
  "MPPovm_getattr base name =
     (if name \<in> set MPPovm_attrs then Inr (Own name)
      else if base name then Inr (Inherited name)
      else Inl AttributeError)"

text \<open>
  \<^verbatim>\<open>MPPovmList.estprob_from\<close>. The loop body looks the attribute
  \<^verbatim>\<open>estprob_from_mpps\<close> up on each member and calls it; \<open>call\<close> says what calling
  an attribute that was found returns.
\<close>

fun estprob_from_loop ::
  "(string \<Rightarrow> bool) \<Rightarrow> (attr \<Rightarrow> mparray \<Rightarrow> MPPovmList \<Rightarrow> 's \<Rightarrow> real \<Rightarrow> py_error + 'r) \<Rightarrow>
   mparray list \<Rightarrow> MPPovmList \<Rightarrow> 's \<Rightarrow> real \<Rightarrow> 'r generator" where
  "estprob_from_loop base call [] other samples eps = ([], None)"
| "estprob_from_loop base call (mpp # rest) other samples eps =
     (case MPPovm_getattr base ''estprob_from_mpps'' of
        Inl e \<Rightarrow> ([], Some e)
      | Inr m \<Rightarrow>
         (case call m mpp other samples eps of
            Inl e \<Rightarrow> ([], Some e)
          | Inr r \<Rightarrow>
             (case estprob_from_loop base call rest other samples eps of
                (ys, err) \<Rightarrow> (r # ys, err))))"

definition estprob_from ::
  "(string \<Rightarrow> bool) \<Rightarrow> (attr \<Rightarrow> mparray \<Rightarrow> MPPovmList \<Rightarrow> 's \<Rightarrow> real \<Rightarrow> py_error + 'r) \<Rightarrow>
   MPPovmList \<Rightarrow> MPPovmList \<Rightarrow> 's \<Rightarrow> real \<Rightarrow> 'r generator" where
  "estprob_from base call self other samples eps =
     (case mpps self of
        [] \<Rightarrow> ([], Some IndexError)
      | s0 # _ \<Rightarrow>
         (case mpps other of
            [] \<Rightarrow> ([], Some IndexError)
          | o0 # _ \<Rightarrow>
             if length s0 \<noteq> length o0 then ([], Some (AssertionError 882))
             else estprob_from_loop base call (mpps self) other samples eps))"

section \<open>Structural operations\<close>

text \<open>A sequence of fallible results is a result: the first exception ends it.\<close>

fun sequence_err :: "(py_error + 'a) list \<Rightarrow> py_error + 'a list" where
  "sequence_err [] = Inr []"
| "sequence_err (x # xs) =
     (case x of
        Inl e \<Rightarrow> Inl e
      | Inr v \<Rightarrow> (case sequence_err xs of Inl e \<Rightarrow> Inl e | Inr vs \<Rightarrow> Inr (v # vs)))"

text \<open>\<^verbatim>\<open>np.eye(dim)\<close> and \<^verbatim>\<open>a.reshape(newshape)\<close> of numpy.\<close>

definition np_eye :: "nat \<Rightarrow> ltens" where
  "np_eye ldim =
     \<lparr>shape = [ldim, ldim],
      dat = concat (map (\<lambda>i. map (\<lambda>j. if i = j then 1 else 0) [0..<ldim]) [0..<ldim])\<rparr>"

definition reshape :: "ltens \<Rightarrow> nat list \<Rightarrow> ltens" where
  "reshape a newshape = a\<lparr>shape := newshape\<rparr>"

text \<open>\<^verbatim>\<open>MPPovm.eye\<close>: the class method builds the chain with \<^verbatim>\<open>cls.from_kron\<close>,
  which runs the constructor of \<^verbatim>\<open>MPPovm\<close>.\<close>

definition eye :: "nat list \<Rightarrow> py_error + mparray" where
  "eye local_dims =
     MPPovm_init (from_kron (map (\<lambda>ldim. reshape (np_eye ldim) [1, ldim, ldim]) local_dims))"

text \<open>\<^verbatim>\<open>MPPovm.embed\<close>. Python's \<^verbatim>\<open>[local_dim] * n\<close> is the empty list for
  \<open>n \<le> 0\<close>.\<close>

definition embed :: "mparray \<Rightarrow> int \<Rightarrow> int \<Rightarrow> nat \<Rightarrow> py_error + mparray" where
  "embed self nr_sites startsite local_dim =
     (case eye (replicate (nat startsite) local_dim) of
        Inl e \<Rightarrow> Inl e
      | Inr left \<Rightarrow>
         let n_right = nr_sites - int (length self) - startsite in
         (case eye (replicate (nat n_right) local_dim) of
            Inl e \<Rightarrow> Inl e
          | Inr right \<Rightarrow> MPPovm_init (outer [left, self, right])))"

text \<open>\<^verbatim>\<open>MPPovmList.__init__\<close>. The members handed over by the functions below are
  instances of \<^verbatim>\<open>MPPovm\<close> already, so the constructor keeps them as they are. Over
  an empty sequence the assertion holds without reading \<^verbatim>\<open>self.mpps[0]\<close>.\<close>

definition MPPovmList_init :: "mparray list \<Rightarrow> py_error + MPPovmList" where
  "MPPovmList_init mppseq =
     (if \<not> (\<forall>mpp \<in> set mppseq. length mpp = length (mppseq ! 0))
      then Inl (AssertionError 781)
      else Inr \<lparr>mpps = mppseq\<rparr>)"

text \<open>\<^verbatim>\<open>MPPovm.block\<close>: \<^verbatim>\<open>self.hdims[0]\<close> raises on a chain without sites.\<close>

definition block :: "mparray \<Rightarrow> int \<Rightarrow> py_error + MPPovmList" where
  "block self nr_sites =
     (case hdims self of
        [] \<Rightarrow> Inl IndexError
      | local_dim # _ \<Rightarrow>
         if \<not> (\<forall>d \<in> set (hdims self). d = local_dim) then Inl (AssertionError 168)
         else
           (case sequence_err
                   (map (\<lambda>startsite. embed self nr_sites (int startsite) local_dim)
                      [0..<nat (nr_sites - int (length self) + 1)]) of
              Inl e \<Rightarrow> Inl e
            | Inr mppseq \<Rightarrow> MPPovmList_init mppseq))"

text \<open>\<^verbatim>\<open>MPPovm.repeat\<close>. Python's \<^verbatim>\<open>//\<close> and \<^verbatim>\<open>%\<close> on integers round towards
  minus infinity, as \<open>div\<close> and \<open>mod\<close> on \<open>int\<close> do, and raise on a zero divisor.
  Modelled from the spec: slicing \<^verbatim>\<open>self[:n_last]\<close> of \<^verbatim>\<open>mp.MPArray\<close> gives the
  first \<open>n_last\<close> local tensors (section 4.2, "a partial trailing copy").\<close>

definition repeat :: "mparray \<Rightarrow> int \<Rightarrow> py_error + mparray" where
  "repeat self nr_sites =
     (if length self = 0 then Inl ZeroDivisionError
      else
        let n_repeat = nr_sites div int (length self);
            n_last = nr_sites mod int (length self)
        in if n_last > 0 \<and> bdims self ! (nat n_last - 1) \<noteq> 1
           then Inl (AssertionError 197)
           else MPPovm_init
                  (outer (replicate (nat n_repeat) self
                          @ (if n_last > 0 then [take (nat n_last) self] else []))))"

text \<open>The bond dimension at the seam of a chain: the right bond leg of its last
  site. A chain without sites has none.\<close>

definition seam_bdim :: "mparray \<Rightarrow> nat option" where
  "seam_bdim self = (case self of [] \<Rightarrow> None | _ \<Rightarrow> Some (last (shape (last self))))"

text \<open>The constructor's two assertions, site by site.\<close>

definition site_ok :: "ltens \<Rightarrow> bool" where
  "site_ok lt =
     (length (shape lt) - 2 = 3 \<and> butlast (tl (shape lt)) ! 1 = butlast (tl (shape lt)) ! 2)"

text \<open>The embedding of section 4.2 in the spec's words: the identity filler on the
  first \<open>s\<close> sites, then \<open>self\<close>, then the identity filler on the remaining sites of
  a chain of \<open>n\<close> sites.\<close>

definition embedding :: "mparray \<Rightarrow> int \<Rightarrow> nat \<Rightarrow> nat \<Rightarrow> mparray" where
  "embedding self n d s =
     outer [from_kron (map (\<lambda>ldim. reshape (np_eye ldim) [1, ldim, ldim]) (replicate s d)),
            self,
            from_kron (map (\<lambda>ldim. reshape (np_eye ldim) [1, ldim, ldim])
                         (replicate (nat (n - int (length self) - int s)) d))]"

text \<open>Two sites measuring in the computational basis of a qubit (the local Z
  measurement, elements \<open>|0><0|\<close> and \<open>|1><1|\<close>), and the one-site identity filler of
  a qubit.\<close>

definition z_site :: ltens where
  "z_site = \<lparr>shape = [1, 2, 2, 2, 1], dat = [1, 0, 0, 0, 0, 0, 0, 1]\<rparr>"

definition eye_site :: ltens where
  "eye_site = \<lparr>shape = [1, 1, 2, 2, 1], dat = [1, 0, 0, 1]\<rparr>"

section \<open>Local POVMs\<close>

text \<open>
  The classes of \<^verbatim>\<open>mpnum/povm.py\<close>. An instance holds \<^verbatim>\<open>vectors\<close>, a
  \<open>num_elements\<close>-by-\<open>d\<close> array, and \<^verbatim>\<open>elements\<close>, a \<open>num_elements\<close>-by-\<open>d\<^sup>2\<close>
  array, both as lists of rows. The entries are binary64 and complex128 numbers and
  the arithmetic on them is rounded. The arrays \<^verbatim>\<open>vectors\<close> of X and of Z are real;
  a real array is modelled as a complex one without imaginary parts.
\<close>

record local_povm =
  vectors :: "complex list list"
  elements :: "complex list list"

text \<open>\<^verbatim>\<open>np.zeros([n, m])\<close>, and the assignment \<^verbatim>\<open>a[k, i] = v\<close>. In the loops below
  the indices are in range.\<close>

definition np_zeros :: "nat \<Rightarrow> nat \<Rightarrow> complex list list" where
  "np_zeros n m = replicate n (replicate m 0)"

definition setitem :: "complex list list \<Rightarrow> nat \<Rightarrow> nat \<Rightarrow> complex \<Rightarrow> complex list list" where
  "setitem a k i v = a[k := (a ! k)[i := v]]"

text \<open>\<^verbatim>\<open>np.outer(vec, vec.conj()).reshape(d**2)\<close>: row \<open>a\<close> of the outer product
  is \<open>vec[a] * conj(vec)\<close>. On a real array numpy takes the rounded real products,
  which is what the complex product gives for numbers without imaginary part.\<close>

definition outer_conj :: "complex list \<Rightarrow> complex list" where
  "outer_conj vec = concat (map (\<lambda>x. map (\<lambda>y. c128_mul x (cnj y)) vec) vec)"

text \<open>\<^verbatim>\<open>Base._init_elements_from_vectors\<close>.\<close>

definition init_elements_from_vectors :: "complex list list \<Rightarrow> complex list list" where
  "init_elements_from_vectors vecs = map outer_conj vecs"

text \<open>The body of the two nested loops of \<^verbatim>\<open>X.__init__\<close> and \<^verbatim>\<open>Y.__init__\<close>, with
  the entry \<open>c\<close> written at position \<open>j\<close> (1 for X, the imaginary unit for Y); the
  state is the row counter \<open>k\<close> and the array.\<close>

definition pair_body ::
  "complex \<Rightarrow> nat \<Rightarrow> nat \<Rightarrow> nat \<times> complex list list \<Rightarrow> nat \<times> complex list list" where
  "pair_body c i j st =
     (case st of (k, vs) \<Rightarrow>
        let vs1 = setitem vs k i 1;
            vs2 = setitem vs1 k j c;
            k1 = k + 1;
            vs3 = setitem vs2 k1 i 1;
            vs4 = setitem vs3 k1 j (- c);
            k2 = k1 + 1
        in (k2, vs4))"

definition pair_loops :: "complex \<Rightarrow> nat \<Rightarrow> nat \<times> complex list list" where
  "pair_loops c d =
     fold (\<lambda>i st. fold (\<lambda>j. pair_body c i j) [i + 1..<d] st) [0..<d - 1]
       (0, np_zeros (d * (d - 1)) d)"

text \<open>\<^verbatim>\<open>self.vectors /= np.sqrt(2 * (d-1))\<close>, on the real array of X and on the
  complex array of Y. The integer \<open>2 (d - 1)\<close> is made a binary64 number first.\<close>

definition divide_rows_f64 :: "complex list list \<Rightarrow> real \<Rightarrow> complex list list" where
  "divide_rows_f64 vs r = map (map (\<lambda>x. complex_of_real (f64_div (Re x) r))) vs"

definition divide_rows_c128 :: "complex list list \<Rightarrow> real \<Rightarrow> complex list list" where
  "divide_rows_c128 vs r = map (map (\<lambda>x. c128_div_f64 x r)) vs"

definition X :: "nat \<Rightarrow> local_povm" where
  "X d =
     (let vs = divide_rows_f64 (snd (pair_loops 1 d)) (f64_sqrt (fl64 (real (2 * (d - 1)))))
      in \<lparr>vectors = vs, elements = init_elements_from_vectors vs\<rparr>)"

definition Y :: "nat \<Rightarrow> local_povm" where
  "Y d =
     (let vs = divide_rows_c128 (snd (pair_loops \<i> d)) (f64_sqrt (fl64 (real (2 * (d - 1)))))
      in \<lparr>vectors = vs, elements = init_elements_from_vectors vs\<rparr>)"

definition Z :: "nat \<Rightarrow> local_povm" where
  "Z d =
     (let vs = fold (\<lambda>i vs. setitem vs i i 1) [0..<d] (np_zeros d d)
      in \<lparr>vectors = vs, elements = init_elements_from_vectors vs\<rparr>)"

text \<open>\<^verbatim>\<open>Combined._init_combined\<close>: both arrays are the concatenation of the
  members' arrays, each multiplied by the member's weight.\<close>

definition times_rows :: "complex list list \<Rightarrow> real \<Rightarrow> complex list list" where
  "times_rows vs w = map (map (\<lambda>x. c128_mul x (complex_of_real w))) vs"

definition init_combined :: "local_povm list \<Rightarrow> real list \<Rightarrow> local_povm" where
  "init_combined povms weights =
     \<lparr>vectors = concat (map (\<lambda>(povm, weight). times_rows (vectors povm) weight) (zip povms weights)),
      elements = concat (map (\<lambda>(povm, weight). times_rows (elements povm) weight) (zip povms weights))\<rparr>"

text \<open>\<^verbatim>\<open>PauliGen.__init__\<close>: X and Y with weights \<^verbatim>\<open>0.5\<close>; for \<open>d = 2\<close> also Z,
  and weights \<^verbatim>\<open>1/3.\<close>, the rounded third.\<close>

definition PauliGen :: "nat \<Rightarrow> local_povm" where
  "PauliGen d =
     (if d = 2 then init_combined [X d, Y d, Z d] [f64_div 1 3, f64_div 1 3, f64_div 1 3]
      else init_combined [X d, Y d] [1 / 2, 1 / 2])"

text \<open>The rows that the two nested loops write for the pair \<open>(i, j)\<close>, and the
  array they leave behind.\<close>

definition rowp :: "complex \<Rightarrow> nat \<Rightarrow> nat \<Rightarrow> nat \<Rightarrow> complex list" where
  "rowp c d i j = (replicate d 0)[i := 1, j := c]"

definition pair_rows :: "complex \<Rightarrow> nat \<Rightarrow> complex list list" where
  "pair_rows c d =
     concat (map (\<lambda>i. concat (map (\<lambda>j. [rowp c d i j, rowp (- c) d i j]) [i + 1..<d])) [0..<d - 1])"

text \<open>The sum of the elements of a local POVM on a \<open>d\<close>-dimensional space, as one
  flattened \<open>d\<close>-by-\<open>d\<close> matrix. The program does not add the elements up; the sum
  is that of the numbers the entries stand for, without rounding.\<close>

definition elements_sum :: "nat \<Rightarrow> complex list list \<Rightarrow> complex list" where
  "elements_sum d els = map (\<lambda>idx. sum_list (map (\<lambda>e. e ! idx) els)) [0..<d * d]"

text \<open>
  The entry that the normalised vectors of X and Y carry where they are not zero: the
  rounded inverse of the rounded root of \<open>2 (d - 1)\<close>. A diagonal position is not
  zero in \<open>2 (d - 1)\<close> elements of X (and of Y), each of which has the rounded square
  of that entry there; \<open>pair_diag\<close> is their sum. \<open>combined_diag\<close> is the sum at a
  diagonal position of the elements of PauliGen.
\<close>

definition pair_entry :: "nat \<Rightarrow> real" where
  "pair_entry d = f64_div 1 (f64_sqrt (fl64 (real (2 * (d - 1)))))"

definition pair_diag :: "nat \<Rightarrow> real" where
  "pair_diag d = real (2 * (d - 1)) * f64_mul (pair_entry d) (pair_entry d)"

definition combined_diag :: "nat \<Rightarrow> real" where
  "combined_diag d =
     (if d = 2
      then 4 * f64_mul (f64_mul (pair_entry 2) (pair_entry 2)) (f64_div 1 3) + f64_div 1 3
      else pair_diag d)"

text \<open>The flattened \<open>d\<close>-by-\<open>d\<close> matrix with \<open>x\<close> on the diagonal and zero elsewhere.\<close>

definition scaled_eye :: "nat \<Rightarrow> real \<Rightarrow> complex list" where
  "scaled_eye d x = map (\<lambda>e. e * complex_of_real x) (dat (np_eye d))"

section \<open>Conditional sampling\<close>













text \<open>The multi-indices of a tensor of a given shape, and \<^verbatim>\<open>probab.sum()\<close>.\<close>

definition valid_index :: "nat list \<Rightarrow> nat list \<Rightarrow> bool" where
  "valid_index dims idx = (length idx = length dims \<and> (\<forall>i < length dims. idx ! i < dims ! i))"

fun all_indices :: "nat list \<Rightarrow> nat list list" where
  "all_indices [] = [[]]"
| "all_indices (n # ns) = concat (map (\<lambda>i. map (\<lambda>rest. i # rest) (all_indices ns)) [0..<n])"








section \<open>Cross-POVM calibration\<close>

text \<open>
  Modelled from the spec: the tensor-train algebra of \<^verbatim>\<open>mp.MPArray\<close>
  (\<^verbatim>\<open>from_kron\<close>, \<^verbatim>\<open>mp.dot\<close>, \<^verbatim>\<open>conj\<close>, \<^verbatim>\<open>mp.prune\<close>, \<^verbatim>\<open>to_array\<close>,
  \<^verbatim>\<open>to_array_global\<close>, \<^verbatim>\<open>mp.norm\<close>, \<^verbatim>\<open>mp.inner\<close>) is treated as exact
  (section 6), so the calibration code is modelled on the tensors that its MPArrays
  represent. The tensor of a chain of local tensors is the contraction of its bond
  legs; its entry at the physical indices \<open>ps\<close> (one list per site) is
  \<open>to_dense mpa ps\<close>. The numpy arrays that \<^verbatim>\<open>to_array\<close> and
  \<^verbatim>\<open>to_array_global\<close> hand over hold binary64 numbers, and the arithmetic that
  numpy does on them is rounded.
\<close>

definition ravel_index :: "nat list \<Rightarrow> nat list \<Rightarrow> nat" where
  "ravel_index shp idx = foldl (\<lambda>acc (n, i). acc * n + i) 0 (zip shp idx)"

definition lt_entry :: "ltens \<Rightarrow> nat \<Rightarrow> nat list \<Rightarrow> nat \<Rightarrow> complex" where
  "lt_entry lt a p b = dat lt ! ravel_index (shape lt) (a # p @ [b])"

fun contract :: "mparray \<Rightarrow> nat list list \<Rightarrow> nat \<Rightarrow> complex" where
  "contract [] ps a = 1"
| "contract (lt # rest) ps a =
     (\<Sum>b\<leftarrow>[0..<last (shape lt)]. lt_entry lt a (hd ps) b * contract rest (tl ps) b)"

definition to_dense :: "mparray \<Rightarrow> nat list list \<Rightarrow> complex" where
  "to_dense mpa ps = contract mpa ps 0"

text \<open>
  The POVM that an MPPovm represents: its outcome and Hilbert space dimensions, and
  the entry of the element of outcome \<open>i\<close> at row \<open>a\<close> and column \<open>b\<close> (each one
  index per site).
\<close>

record dpovm =
  d_outdims :: "nat list"
  d_hdims :: "nat list"
  d_elem :: "nat list \<Rightarrow> nat list \<Rightarrow> nat list \<Rightarrow> complex"

fun zip3 :: "nat list \<Rightarrow> nat list \<Rightarrow> nat list \<Rightarrow> nat list list" where
  "zip3 (i # is) (a # as) (b # bs) = [i, a, b] # zip3 is as bs"
| "zip3 _ _ _ = []"

definition dense_of :: "mparray \<Rightarrow> dpovm" where
  "dense_of self =
     \<lparr>d_outdims = outdims self, d_hdims = hdims self,
      d_elem = (\<lambda>i a b. to_dense self (zip3 i a b))\<rparr>"

text \<open>An array: its shape and its entry at each multi-index. An entry of a float
  array that is \<^verbatim>\<open>nan\<close> is \<open>None\<close>.\<close>

record 'a ndarray =
  nshape :: "nat list"
  nentry :: "nat list \<Rightarrow> 'a"

text \<open>
  \<^verbatim>\<open>mp.prune(mpa, singletons=True)\<close> drops the sites whose physical legs all have
  dimension 1. An index of the pruned array is turned into an index over all sites
  by putting 0 at the dropped sites.
\<close>

fun scatter :: "bool list \<Rightarrow> nat list \<Rightarrow> nat list" where
  "scatter [] idx = []"
| "scatter (kept # ks) idx =
     (if kept then (case idx of [] \<Rightarrow> 0 | x # _ \<Rightarrow> x) # scatter ks (tl idx)
      else 0 # scatter ks idx)"

definition unprune :: "nat list \<Rightarrow> nat list \<Rightarrow> nat list" where
  "unprune odims idx = scatter (map (\<lambda>od. od \<noteq> 1) odims) idx"

text \<open>
  Lines 291 to 297: \<^verbatim>\<open>other = MPPovm(mp.dot(tr, other))\<close>. Where \<^verbatim>\<open>self\<close> has more
  than one outcome, \<^verbatim>\<open>tr\<close> is the identity on the outcome leg of \<^verbatim>\<open>other\<close>;
  elsewhere it is a row of ones, which sums the elements of \<^verbatim>\<open>other\<close> over the
  outcomes of that site. \<open>expand\<close> lists the outcomes of \<^verbatim>\<open>other\<close> that are summed
  into outcome \<open>j\<close> of the result.
\<close>

fun expand :: "bool list \<Rightarrow> nat list \<Rightarrow> nat list \<Rightarrow> nat list list" where
  "expand (keep # ks) (od # ods) (j # js) =
     concat (map (\<lambda>x. map (\<lambda>rest. x # rest) (expand ks ods js))
                 (if keep then [j] else [0..<od]))"
| "expand _ _ _ = [[]]"

definition drop_outcomes :: "dpovm \<Rightarrow> dpovm \<Rightarrow> dpovm" where
  "drop_outcomes self other =
     (let keep_outdims = map (\<lambda>outdim. outdim > 1) (d_outdims self)
      in \<lparr>d_outdims = map (\<lambda>(keep, outdim). if keep then outdim else 1)
                         (zip keep_outdims (d_outdims other)),
          d_hdims = d_hdims other,
          d_elem = (\<lambda>j a b. \<Sum>j'\<leftarrow>expand keep_outdims (d_outdims other) j.
                              d_elem other j' a b)\<rparr>)"

text \<open>
  \<^verbatim>\<open>mp.dot(x.conj(), y, axes=((1, 2), (1, 2)))\<close>: the inner product of the element
  \<open>i\<close> of \<open>x\<close> and the element \<open>j\<close> of \<open>y\<close>, a sum over both Hilbert space legs of
  all sites.
\<close>

definition elem_inner :: "dpovm \<Rightarrow> dpovm \<Rightarrow> nat list \<Rightarrow> nat list \<Rightarrow> complex" where
  "elem_inner x y i j =
     (\<Sum>a\<leftarrow>all_indices (d_hdims x). \<Sum>b\<leftarrow>all_indices (d_hdims x).
        cnj (d_elem x i a b) * d_elem y j a b)"

text \<open>Lines 302 to 308 and 317 (and 309 to 315 and 318): the squared norms of the
  elements of \<open>x\<close>, as an array over its non-singleton outcome legs.\<close>

definition normsq :: "dpovm \<Rightarrow> real ndarray" where
  "normsq x =
     \<lparr>nshape = filter (\<lambda>od. od \<noteq> 1) (d_outdims x),
      nentry = (\<lambda>idx. fl64 (Re (elem_inner x x (unprune (d_outdims x) idx)
                                               (unprune (d_outdims x) idx))))\<rparr>"

text \<open>Lines 300 and 316: \<^verbatim>\<open>abs(mp.prune(inner, True).to_array_global())**2\<close>. A site
  is kept when its two outcome legs are not both singletons; the legs of \<^verbatim>\<open>self\<close>
  come first, then those of \<^verbatim>\<open>other\<close>.\<close>

definition inner_sq :: "dpovm \<Rightarrow> dpovm \<Rightarrow> real ndarray" where
  "inner_sq self other =
     (let kept_sites = map (\<lambda>(so, oo). so * oo \<noteq> 1) (zip (d_outdims self) (d_outdims other));
          k = length (filter id kept_sites)
      in \<lparr>nshape = map fst (filter (\<lambda>(so, oo). so * oo \<noteq> 1)
                                  (zip (d_outdims self) (d_outdims other)))
                    @ map snd (filter (\<lambda>(so, oo). so * oo \<noteq> 1)
                                  (zip (d_outdims self) (d_outdims other))),
          nentry = (\<lambda>idx.
            let a = np_abs (c128 (elem_inner self other (scatter kept_sites (take k idx))
                                                        (scatter kept_sites (drop k idx))))
            in f64_mul a a)\<rparr>)"

text \<open>\<^verbatim>\<open>x.all()\<close> of a boolean array, and the reduction \<^verbatim>\<open>match.sum(axes)\<close> over
  the leading or the trailing legs.\<close>

definition nd_all :: "bool ndarray \<Rightarrow> bool" where
  "nd_all x = (\<forall>idx \<in> set (all_indices (nshape x)). nentry x idx)"

definition count_true :: "bool list \<Rightarrow> nat" where
  "count_true bs = length (filter id bs)"

text \<open>
  \<^verbatim>\<open>MPPovm.find_matching_elements\<close>, on the POVMs that \<^verbatim>\<open>self\<close> and \<^verbatim>\<open>other\<close>
  represent. Line 288 reads the name \<^verbatim>\<open>exclude_duplicates\<close>, which is neither a
  parameter nor a local or global name: evaluating it raises \<^verbatim>\<open>NameError\<close>. A
  product of norms that is zero makes the quotient of line 324 \<^verbatim>\<open>nan\<close> or
  negative infinity, and the assertion fails. When \<^verbatim>\<open>self\<close> has no site with more
  than one outcome, \<^verbatim>\<open>prefactors\<close> is a number and not an array, and the item
  assignment of line 344 raises \<^verbatim>\<open>TypeError\<close>. The result is the boolean array
  \<^verbatim>\<open>match\<close> and the array \<^verbatim>\<open>prefactors\<close>.
\<close>

definition find_matching_dense ::
  "dpovm \<Rightarrow> dpovm \<Rightarrow> string list \<Rightarrow> real \<Rightarrow> py_error + bool ndarray \<times> real option ndarray" where
  "find_matching_dense self other0 exclude_dup eps =
     (if d_hdims self \<noteq> d_hdims other0 then Inl ValueError
      else if length exclude_dup > 0 then Inl NameError
      else
        let other = drop_outcomes self other0;
            inner = inner_sq self other;
            snormsq = normsq self;
            onormsq = normsq other
        in if \<not> nd_all \<lparr>nshape = nshape snormsq, nentry = (\<lambda>i. nentry snormsq i > 0)\<rparr>
           then Inl (AssertionError 319)
           else if \<not> nd_all \<lparr>nshape = nshape onormsq, nentry = (\<lambda>j. nentry onormsq j > 0)\<rparr>
           then Inl (AssertionError 320)
           else if nshape inner \<noteq> nshape snormsq @ nshape onormsq
           then Inl (AssertionError 321)
           else
             let ns = length (nshape snormsq);
                 normprod = (\<lambda>idx. f64_mul (nentry snormsq (take ns idx))
                                          (nentry onormsq (drop ns idx)))
             in if \<not> nd_all \<lparr>nshape = nshape inner,
                     nentry = (\<lambda>idx. normprod idx \<noteq> 0
                                 \<and> f64_div (f64_sub (normprod idx) (nentry inner idx)) (normprod idx)
                                     \<ge> - eps)\<rparr>
                then Inl (AssertionError 324)
                else
                  let match = \<lparr>nshape = nshape inner,
                        nentry = (\<lambda>idx. \<bar>f64_sub (f64_div (nentry inner idx) (normprod idx)) 1\<bar>
                                         \<le> eps)\<rparr>;
                      n_sout = length (filter (\<lambda>od. od > 1) (d_outdims self))
                  in if ''self'' \<in> set exclude_dup
                        \<and> \<not> (\<forall>j \<in> set (all_indices (drop n_sout (nshape match))).
                               count_true (map (\<lambda>i. nentry match (i @ j))
                                             (all_indices (take n_sout (nshape match)))) \<le> 1)
                     then Inl (AssertionError 332)
                     else if ''other'' \<in> set exclude_dup
                        \<and> \<not> (\<forall>i \<in> set (all_indices (take n_sout (nshape match))).
                               count_true (map (\<lambda>j. nentry match (i @ j))
                                             (all_indices (drop n_sout (nshape match)))) \<le> 1)
                     then Inl (AssertionError 335)
                     else if nshape snormsq @ nshape onormsq = [] then Inl TypeError
                     else
                       Inr (match,
                            \<lparr>nshape = nshape snormsq @ nshape onormsq,
                             nentry = (\<lambda>idx. if nentry match idx
                                              then Some (f64_sqrt (f64_div (nentry snormsq (take ns idx))
                                                                           (nentry onormsq (drop ns idx))))
                                              else None)\<rparr>))"

definition find_matching_elements ::
  "mparray \<Rightarrow> mparray \<Rightarrow> string list \<Rightarrow> real \<Rightarrow> py_error + bool ndarray \<times> real option ndarray" where
  "find_matching_elements self other exclude_dup eps =
     find_matching_dense (dense_of self) (dense_of other) exclude_dup eps"

text \<open>A one-site POVM on a qubit with the three elements \<open>|0><0|/2\<close>, \<open>|1><1|/2\<close>
  and \<open>1/2\<close> times the identity.\<close>

definition half_site :: ltens where
  "half_site = \<lparr>shape = [1, 3, 2, 2, 1],
                 dat = [1 / 2, 0, 0, 0, 0, 0, 0, 1 / 2, 1 / 2, 0, 0, 1 / 2]\<rparr>"

text \<open>A one-site POVM on a qubit with the three elements \<open>0.19 |0><0|\<close>,
  \<open>0.81 |0><0|\<close> and \<open>|1><1|\<close>, the two decimals being the binary64 numbers that
  Python reads them as.\<close>

definition skew_site :: ltens where
  "skew_site = \<lparr>shape = [1, 3, 2, 2, 1],
                 dat = [3422735716801577 / 2 ^ 54, 0, 0, 0,
                        1823957849085051 / 2 ^ 51, 0, 0, 0,
                        0, 0, 0, 1]\<rparr>"

text \<open>The entry of \<^verbatim>\<open>prefactors\<close> at a multi-index, as
  \<^verbatim>\<open>self.find_matching_elements(other)\<close> returns it.\<close>

definition prefactor_at :: "mparray \<Rightarrow> mparray \<Rightarrow> nat list \<Rightarrow> py_error + real option" where
  "prefactor_at self other idx =
     (case find_matching_elements self other [] (1 / 10 ^ 10) of
        Inl e \<Rightarrow> Inl e
      | Inr (match, prefactors) \<Rightarrow> Inr (nentry prefactors idx))"

section \<open>Properties\<close>

subsection \<open>Binary64 rounding\<close>

lemma pow2_powr: "pow2 e = 2 powr (of_int e)"
proof (cases "0 \<le> e")
  case True
  then have "2 powr (of_int e) = (2::real) powr (real (nat e))" by simp
  also have "\<dots> = 2 ^ nat e" by (simp add: powr_realpow)
  finally show ?thesis using True by (simp add: pow2_def)
next
  case False
  then have "(2::real) powr (of_int e) = 2 powr (- real (nat (- e)))" by simp
  also have "\<dots> = 1 / 2 powr (real (nat (- e)))" by (simp add: powr_minus_divide)
  also have "\<dots> = 1 / 2 ^ nat (- e)" by (simp add: powr_realpow)
  finally show ?thesis using False by (simp add: pow2_def)
qed

lemma pow2_pos [simp]: "0 < pow2 e"
  by (simp add: pow2_powr)

lemma pow2_ne0 [simp]: "pow2 e \<noteq> 0"
  using pow2_pos [of e] by linarith

lemma pow2_not_le0 [simp]: "\<not> pow2 e \<le> 0"
  using pow2_pos [of e] by linarith

lemma pow2_abs [simp]: "\<bar>pow2 e\<bar> = pow2 e"
  using pow2_pos [of e] by linarith

lemma pow2_nonneg [simp]: "0 \<le> pow2 e"
  using pow2_pos [of e] by linarith

lemma pow2_of_nat: "pow2 (int n) = 2 ^ n"
  by (simp add: pow2_def)

lemma pow2_add: "pow2 (a + b) = pow2 a * pow2 b"
  by (simp add: pow2_powr powr_add)

lemma pow2_diff: "pow2 (a - b) = pow2 a / pow2 b"
  by (simp add: pow2_powr powr_diff)

lemma pow2_mono: "a \<le> b \<Longrightarrow> pow2 a \<le> pow2 b"
  by (simp add: pow2_powr)

lemma pow2_nat: "0 \<le> e \<Longrightarrow> pow2 e = of_int (2 ^ nat e)"
  by (simp add: pow2_def)

lemma rne_error: "\<bar>of_int (rne x) - x\<bar> \<le> 1 / 2"
proof -
  have "of_int \<lfloor>x\<rfloor> \<le> x" "x < of_int \<lfloor>x\<rfloor> + 1" by linarith+
  then show ?thesis by (auto simp: rne_def Let_def)
qed

lemma rne_eqI:
  assumes "\<bar>x - of_int k\<bar> < 1 / 2"
  shows "rne x = k"
proof -
  have a: "of_int \<lfloor>x\<rfloor> \<le> x" "x < of_int \<lfloor>x\<rfloor> + 1" by linarith+
  consider "\<lfloor>x\<rfloor> = k" | "\<lfloor>x\<rfloor> = k - 1" using assms a by (cases "x < of_int k") linarith+
  then show ?thesis
  proof cases
    case 1
    with assms a show ?thesis by (auto simp: rne_def Let_def)
  next
    case 2
    with assms a show ?thesis by (auto simp: rne_def Let_def)
  qed
qed

lemma rne_of_int [simp]: "rne (of_int k) = k"
  by (rule rne_eqI) simp

lemma rne_minus: "rne (- x) = - rne x"
proof (cases "x = of_int \<lfloor>x\<rfloor>")
  case True
  then have "rne x = \<lfloor>x\<rfloor>" by (metis rne_of_int)
  moreover have "- x = of_int (- \<lfloor>x\<rfloor>)" using True by simp
  then have "rne (- x) = - \<lfloor>x\<rfloor>" by (metis rne_of_int)
  ultimately show ?thesis by simp
next
  case False
  have a: "of_int \<lfloor>x\<rfloor> < x" "x < of_int \<lfloor>x\<rfloor> + 1" using False by linarith+
  have f: "\<lfloor>- x\<rfloor> = - \<lfloor>x\<rfloor> - 1" using a by linarith
  show ?thesis unfolding rne_def Let_def f using a by auto
qed

lemma floor_log2_bounds:
  assumes "x \<noteq> 0"
  shows "pow2 \<lfloor>log 2 \<bar>x\<bar>\<rfloor> \<le> \<bar>x\<bar>" and "\<bar>x\<bar> < pow2 (\<lfloor>log 2 \<bar>x\<bar>\<rfloor> + 1)"
proof -
  have p: "0 < \<bar>x\<bar>" using assms by simp
  have "of_int \<lfloor>log 2 \<bar>x\<bar>\<rfloor> \<le> log 2 \<bar>x\<bar>" by linarith
  then have "2 powr (of_int \<lfloor>log 2 \<bar>x\<bar>\<rfloor>) \<le> 2 powr (log 2 \<bar>x\<bar>)" by simp
  then show "pow2 \<lfloor>log 2 \<bar>x\<bar>\<rfloor> \<le> \<bar>x\<bar>" using p by (simp add: pow2_powr)
  have "log 2 \<bar>x\<bar> < of_int (\<lfloor>log 2 \<bar>x\<bar>\<rfloor> + 1)" by linarith
  then have "2 powr (log 2 \<bar>x\<bar>) < 2 powr (of_int (\<lfloor>log 2 \<bar>x\<bar>\<rfloor> + 1))" by simp
  then show "\<bar>x\<bar> < pow2 (\<lfloor>log 2 \<bar>x\<bar>\<rfloor> + 1)" using p by (simp add: pow2_powr)
qed

lemma floor_log2_eqI:
  assumes "pow2 k \<le> \<bar>x\<bar>" and "\<bar>x\<bar> < pow2 (k + 1)"
  shows "\<lfloor>log 2 \<bar>x\<bar>\<rfloor> = k"
proof -
  have p: "0 < \<bar>x\<bar>" using assms(1) pow2_pos [of k] by linarith
  have "2 powr (of_int k) \<le> 2 powr (log 2 \<bar>x\<bar>)" using assms(1) p by (simp add: pow2_powr)
  then have a: "of_int k \<le> log 2 \<bar>x\<bar>" by simp
  have "2 powr (log 2 \<bar>x\<bar>) < 2 powr (of_int (k + 1))" using assms(2) p by (simp add: pow2_powr)
  then have b: "log 2 \<bar>x\<bar> < of_int (k + 1)" by (simp only: powr_less_cancel_iff) 
  from a b show ?thesis by linarith
qed

lemma pow2_less_cancel: "pow2 a < pow2 b \<Longrightarrow> a < b"
  by (simp add: pow2_powr)

lemma fl64_eqI:
  assumes lo: "pow2 (e + 52) \<le> \<bar>x\<bar>" and hi: "\<bar>x\<bar> < pow2 (e + 53)"
    and e: "- 1074 \<le> e"
    and m: "\<bar>x / pow2 e - of_int m\<bar> < 1 / 2"
  shows "fl64 x = of_int m * pow2 e"
proof -
  have nz: "x \<noteq> 0" using lo pow2_pos [of "e + 52"] by auto
  have hi': "\<bar>x\<bar> < pow2 (e + 52 + 1)" using hi by (simp add: add.commute add.left_commute)
  have k: "\<lfloor>log 2 \<bar>x\<bar>\<rfloor> = e + 52" by (rule floor_log2_eqI [OF lo hi'])
  have E: "max (\<lfloor>log 2 \<bar>x\<bar>\<rfloor> - 52) (- 1074) = e" unfolding k using e by simp
  have "rne (x / pow2 e) = m" by (rule rne_eqI [OF m])
  then show ?thesis using nz by (simp add: fl64_def Let_def E)
qed

lemma fl64_exact:
  assumes m: "\<bar>m\<bar> < 2 ^ 53" and e: "- 1074 \<le> e"
  shows "fl64 (of_int m * pow2 e) = of_int m * pow2 e"
proof (cases "m = 0")
  case True
  then show ?thesis by (simp add: fl64_def)
next
  case False
  let ?x = "of_int m * pow2 e"
  let ?k = "\<lfloor>log 2 \<bar>?x\<bar>\<rfloor>"
  let ?E = "max (?k - 52) (- 1074)"
  have nz: "?x \<noteq> 0" using False pow2_pos [of e] by simp
  have "\<bar>?x\<bar> = \<bar>of_int m\<bar> * pow2 e" by (simp add: abs_mult)
  also have "\<dots> < 2 ^ 53 * pow2 e"
  proof -
    have "\<bar>real_of_int m\<bar> < 2 ^ 53" using m by (metis of_int_abs of_int_less_numeral_power_cancel_iff)
    then show ?thesis by simp
  qed
  also have "\<dots> = pow2 (53 + e)"
    using pow2_of_nat [of 53] by (simp add: pow2_add)
  finally have up: "\<bar>?x\<bar> < pow2 (53 + e)" .
  have "pow2 ?k \<le> \<bar>?x\<bar>" by (rule floor_log2_bounds(1) [OF nz])
  with up have "pow2 ?k < pow2 (53 + e)" by linarith
  then have "?k < 53 + e" by (rule pow2_less_cancel)
  then have Ee: "?E \<le> e" using e by simp
  have "pow2 e = pow2 (e - ?E) * pow2 ?E" by (simp add: pow2_add [symmetric])
  moreover have "pow2 (e - ?E) = of_int (2 ^ nat (e - ?E))" using Ee by (intro pow2_nat) simp
  ultimately have x: "?x = of_int (m * 2 ^ nat (e - ?E)) * pow2 ?E" by simp
  have "?x / pow2 ?E = of_int (m * 2 ^ nat (e - ?E))"
    by (subst x) (simp del: of_int_mult of_int_power)
  then have "rne (?x / pow2 ?E) = m * 2 ^ nat (e - ?E)" by (simp only: rne_of_int)
  then have "fl64 ?x = of_int (m * 2 ^ nat (e - ?E)) * pow2 ?E"
    unfolding fl64_def Let_def using nz by (simp only: if_False)
  also have "\<dots> = ?x" by (rule x [symmetric])
  finally show ?thesis .
qed

lemma fl64_rel_err:
  assumes "pow2 (- 1022) \<le> \<bar>x\<bar>"
  shows "\<bar>fl64 x - x\<bar> \<le> \<bar>x\<bar> / 2 ^ 53"
proof -
  let ?k = "\<lfloor>log 2 \<bar>x\<bar>\<rfloor>"
  have nz: "x \<noteq> 0" using assms pow2_pos [of "- 1022"] by auto
  have "\<bar>x\<bar> < pow2 (?k + 1)" by (rule floor_log2_bounds(2) [OF nz])
  with assms have "pow2 (- 1022) < pow2 (?k + 1)" by linarith
  then have "- 1022 < ?k + 1" by (rule pow2_less_cancel)
  then have "- 1074 \<le> ?k - 52" by linarith
  then have E: "max (?k - 52) (- 1074) = ?k - 52" by (rule max_absorb1)
  let ?E = "?k - 52"
  have f: "fl64 x = of_int (rne (x / pow2 ?E)) * pow2 ?E"
    using nz by (simp add: fl64_def Let_def E)
  have "fl64 x - x = (of_int (rne (x / pow2 ?E)) - x / pow2 ?E) * pow2 ?E"
    unfolding f by (simp add: algebra_simps)
  then have "\<bar>fl64 x - x\<bar> = \<bar>of_int (rne (x / pow2 ?E)) - x / pow2 ?E\<bar> * pow2 ?E"
    by (simp add: abs_mult)
  also have "\<dots> \<le> 1 / 2 * pow2 ?E"
    by (intro mult_right_mono rne_error) simp
  also have "\<dots> = pow2 ?k / 2 ^ 53"
  proof -
    have "pow2 ?E = pow2 ?k / pow2 52" by (rule pow2_diff)
    then show ?thesis using pow2_of_nat [of 52] by simp
  qed
  also have "\<dots> \<le> \<bar>x\<bar> / 2 ^ 53"
    using floor_log2_bounds(1) [OF nz] by (simp add: divide_right_mono)
  finally show ?thesis .
qed

lemma fl64_minus: "fl64 (- x) = - fl64 x"
  by (simp add: fl64_def Let_def rne_minus)

lemma fl64_0 [simp]: "fl64 0 = 0"
  by (simp add: fl64_def)

lemma fl64_bounds:
  assumes "pow2 (- 1022) \<le> x"
  shows "(1 - 1 / 2 ^ 53) * x \<le> fl64 x" and "fl64 x \<le> (1 + 1 / 2 ^ 53) * x"
proof -
  have p: "0 < x" using assms pow2_pos [of "- 1022"] by linarith
  then have "pow2 (- 1022) \<le> \<bar>x\<bar>" using assms by simp
  from fl64_rel_err [OF this] p have "\<bar>fl64 x - x\<bar> \<le> x / 2 ^ 53" by simp
  then have b: "fl64 x - x \<le> x / 2 ^ 53" "- (fl64 x - x) \<le> x / 2 ^ 53"
    by (simp_all only: abs_le_iff)
  have e1: "(1 - 1 / 2 ^ 53) * x = x - x / 2 ^ 53" by (simp only: left_diff_distrib mult_1 times_divide_eq_left)
  have e2: "(1 + 1 / 2 ^ 53) * x = x + x / 2 ^ 53" by (simp only: distrib_right mult_1 times_divide_eq_left)
  show "(1 - 1 / 2 ^ 53) * x \<le> fl64 x" unfolding e1 using b(2) by linarith
  show "fl64 x \<le> (1 + 1 / 2 ^ 53) * x" unfolding e2 using b(1) by linarith
qed

lemma pow2_1022_sq: "(pow2 (- 1022))\<^sup>2 \<le> pow2 (- 1022) / 2"
proof -
  have "(pow2 (- 1022))\<^sup>2 = pow2 (- 1022) * pow2 (- 1022)" by (simp add: power2_eq_square)
  also have "\<dots> \<le> pow2 (- 1022) * (1 / 2)"
  proof (rule mult_left_mono)
    have "pow2 (- 1022) \<le> pow2 (- 1)" by (rule pow2_mono) simp
    then show "pow2 (- 1022) \<le> 1 / 2" by (simp add: pow2_def)
  qed simp
  finally show ?thesis by simp
qed

lemma sqrt_round_bounds:
  assumes q: "pow2 (- 1022) \<le> q"
  defines "x \<equiv> fl64 (sqrt (fl64 q))"
  shows "0 < x" and "(1 - 1 / 2 ^ 53) ^ 3 * q \<le> x\<^sup>2" and "x\<^sup>2 \<le> (1 + 1 / 2 ^ 53) ^ 3 * q"
proof -
  define u :: real where "u = 1 / 2 ^ 53"
  have u: "0 < u" "u \<le> 1 / 2" by (simp_all add: u_def)
  define a where "a = fl64 q"
  have qp: "0 < q" using q pow2_pos [of "- 1022"] by linarith
  have a1: "(1 - u) * q \<le> a" and a2: "a \<le> (1 + u) * q"
    unfolding a_def u_def by (rule fl64_bounds [OF q])+
  have "u * q \<le> 1 / 2 * q" by (rule mult_right_mono) (use u qp in simp_all)
  moreover have "(1 - u) * q = q - u * q" by (simp only: left_diff_distrib mult_1)
  ultimately have "q / 2 \<le> (1 - u) * q" by simp
  with a1 have ah: "q / 2 \<le> a" by linarith
  then have ap: "0 < a" using qp by linarith
  have "(pow2 (- 1022))\<^sup>2 \<le> pow2 (- 1022) / 2" by (rule pow2_1022_sq)
  also have "\<dots> \<le> q / 2" using q by simp
  also have "\<dots> \<le> a" by (rule ah)
  finally have "pow2 (- 1022) \<le> sqrt a" by (rule real_le_rsqrt)
  then have x1: "(1 - u) * sqrt a \<le> x" and x2: "x \<le> (1 + u) * sqrt a"
    unfolding x_def a_def [symmetric] u_def by (rule fl64_bounds)+
  have sp: "0 < sqrt a" using ap by simp
  have "0 < (1 - u) * sqrt a" using u sp by simp
  with x1 show xp: "0 < x" by linarith
  have "((1 - u) * sqrt a)\<^sup>2 \<le> x\<^sup>2"
    by (rule power_mono [OF x1]) (use u sp in simp)
  then have l: "(1 - u)\<^sup>2 * a \<le> x\<^sup>2" using ap by (simp add: power_mult_distrib)
  have "(1 - u)\<^sup>2 * ((1 - u) * q) \<le> (1 - u)\<^sup>2 * a"
    by (rule mult_left_mono [OF a1]) simp
  with l have "(1 - u)\<^sup>2 * ((1 - u) * q) \<le> x\<^sup>2" by linarith
  then show "(1 - 1 / 2 ^ 53) ^ 3 * q \<le> x\<^sup>2"
    unfolding u_def by (simp add: power3_eq_cube power2_eq_square mult.assoc)
  have "x\<^sup>2 \<le> ((1 + u) * sqrt a)\<^sup>2"
    by (rule power_mono [OF x2]) (use xp in simp)
  then have r: "x\<^sup>2 \<le> (1 + u)\<^sup>2 * a" using ap by (simp add: power_mult_distrib)
  have "(1 + u)\<^sup>2 * a \<le> (1 + u)\<^sup>2 * ((1 + u) * q)"
    by (rule mult_left_mono [OF a2]) simp
  with r have "x\<^sup>2 \<le> (1 + u)\<^sup>2 * ((1 + u) * q)" by linarith
  then show "x\<^sup>2 \<le> (1 + 1 / 2 ^ 53) ^ 3 * q"
    unfolding u_def by (simp add: power3_eq_cube power2_eq_square mult.assoc)
qed

lemma cube_bounds:
  fixes u :: real
  assumes "0 \<le> u" and "u \<le> 1 / 4"
  shows "(1 + u) ^ 3 \<le> 1 + 4 * u" and "1 - 4 * u \<le> (1 - u) ^ 3"
proof -
  have "(1 + u) ^ 3 = 1 + 4 * u + u * (3 * u + u\<^sup>2 - 1)"
    by (simp add: power3_eq_cube power2_eq_square algebra_simps)
  moreover have "u * (3 * u + u\<^sup>2 - 1) \<le> 0"
  proof (rule mult_nonneg_nonpos [OF assms(1)])
    have "u\<^sup>2 \<le> u * (1 / 4)" unfolding power2_eq_square by (rule mult_left_mono [OF assms(2) assms(1)])
    then show "3 * u + u\<^sup>2 - 1 \<le> 0" using assms by linarith
  qed
  ultimately show "(1 + u) ^ 3 \<le> 1 + 4 * u" by linarith
  have "(1 - u) ^ 3 = 1 - 4 * u + u * (1 + 3 * u - u\<^sup>2)"
    by (simp add: power3_eq_cube power2_eq_square algebra_simps)
  moreover have "0 \<le> u * (1 + 3 * u - u\<^sup>2)"
  proof (rule mult_nonneg_nonneg [OF assms(1)])
    have "u\<^sup>2 \<le> u * (1 / 4)" unfolding power2_eq_square by (rule mult_left_mono [OF assms(2) assms(1)])
    then show "0 \<le> 1 + 3 * u - u\<^sup>2" using assms by linarith
  qed
  ultimately show "1 - 4 * u \<le> (1 - u) ^ 3" by linarith
qed

lemma reciprocal_rounding:
  assumes s: "0 < s" and o: "0 < t"
    and lo: "pow2 (- 1022) \<le> s / t" and hi: "s / t \<le> pow2 1022"
  shows "\<bar>f64_sqrt (f64_div s t) * f64_sqrt (f64_div t s) - 1\<bar> \<le> 1 / 2 ^ 51"
    and "0 < f64_sqrt (f64_div s t)" and "0 < f64_sqrt (f64_div t s)"
proof -
  define u :: real where "u = 1 / 2 ^ 53"
  define q where "q = s / t"
  define x where "x = f64_sqrt (f64_div s t)"
  define y where "y = f64_sqrt (f64_div t s)"
  have qp: "0 < q" using s o by (simp add: q_def)
  have inv: "t / s = 1 / q" using s o by (simp add: q_def)
  have "1 / pow2 1022 \<le> 1 / q" using hi qp unfolding q_def [symmetric] by (simp add: frac_le)
  moreover have "1 / pow2 1022 = pow2 (- 1022)" by (simp add: pow2_def)
  ultimately have lo': "pow2 (- 1022) \<le> 1 / q" by simp
  have xd: "x = fl64 (sqrt (fl64 q))" by (simp add: x_def f64_sqrt_def f64_div_def q_def)
  have yd: "y = fl64 (sqrt (fl64 (1 / q)))" by (simp add: y_def f64_sqrt_def f64_div_def inv)
  have lo'': "pow2 (- 1022) \<le> q" using lo by (simp add: q_def)
  have xp: "0 < x" and x1: "(1 - u) ^ 3 * q \<le> x\<^sup>2" and x2: "x\<^sup>2 \<le> (1 + u) ^ 3 * q"
    unfolding xd u_def by (rule sqrt_round_bounds [OF lo''])+
  have yp: "0 < y" and y1: "(1 - u) ^ 3 * (1 / q) \<le> y\<^sup>2" and y2: "y\<^sup>2 \<le> (1 + u) ^ 3 * (1 / q)"
    unfolding yd u_def by (rule sqrt_round_bounds [OF lo'])+
  have u: "0 \<le> u" "u \<le> 1 / 4" "u < 1" by (simp_all add: u_def)
  have c1: "0 \<le> (1 - u) ^ 3" using u by simp
  have "((1 - u) ^ 3 * q) * ((1 - u) ^ 3 * (1 / q)) \<le> x\<^sup>2 * y\<^sup>2"
    by (rule mult_mono [OF x1 y1]) (use c1 qp in simp_all)
  then have "((1 - u) ^ 3)\<^sup>2 \<le> (x * y)\<^sup>2"
    using qp by (simp add: power2_eq_square power_mult_distrib algebra_simps)
  then have l: "(1 - u) ^ 3 \<le> x * y"
    by (rule power2_le_imp_le) (use xp yp in simp)
  have "x\<^sup>2 * y\<^sup>2 \<le> ((1 + u) ^ 3 * q) * ((1 + u) ^ 3 * (1 / q))"
    by (rule mult_mono [OF x2 y2]) (use u qp in simp_all)
  then have "(x * y)\<^sup>2 \<le> ((1 + u) ^ 3)\<^sup>2"
    using qp by (simp add: power2_eq_square power_mult_distrib algebra_simps)
  then have r: "x * y \<le> (1 + u) ^ 3"
    by (rule power2_le_imp_le) (use u in simp)
  from l r cube_bounds [OF u(1) u(2)] have "1 - 4 * u \<le> x * y" "x * y \<le> 1 + 4 * u" by linarith+
  then have "\<bar>x * y - 1\<bar> \<le> 4 * u" by (simp add: abs_le_iff)
  also have "4 * u = 1 / 2 ^ 51" by (simp add: u_def)
  finally show "\<bar>f64_sqrt (f64_div s t) * f64_sqrt (f64_div t s) - 1\<bar> \<le> 1 / 2 ^ 51"
    unfolding x_def y_def .
  show "0 < f64_sqrt (f64_div s t)" using xp by (simp add: x_def)
  show "0 < f64_sqrt (f64_div t s)" using yp by (simp add: y_def)
qed

lemma fl64_posI:
  assumes m: "2 ^ 52 < m" "m < 2 ^ 53" and e: "- 1074 \<le> e"
    and lo: "(of_int m - 1 / 2) * pow2 e < x" and hi: "x < (of_int m + 1 / 2) * pow2 e"
  shows "fl64 x = of_int m * pow2 e"
proof (rule fl64_eqI [OF _ _ e])
  have m1: "2 ^ 52 + 1 \<le> real_of_int m"
  proof -
    from m(1) have "2 ^ 52 + 1 \<le> m" by simp
    then have "real_of_int (2 ^ 52 + 1) \<le> real_of_int m" by (simp only: of_int_le_iff)
    then show ?thesis by simp
  qed
  have m2: "real_of_int m \<le> 2 ^ 53 - 1"
  proof -
    from m(2) have "m \<le> 2 ^ 53 - 1" by simp
    then have "real_of_int m \<le> real_of_int (2 ^ 53 - 1)" by (simp only: of_int_le_iff)
    then show ?thesis by simp
  qed
  have p52: "pow2 (e + 52) = 2 ^ 52 * pow2 e" using pow2_of_nat [of 52] by (simp add: pow2_add)
  have p53: "pow2 (e + 53) = 2 ^ 53 * pow2 e" using pow2_of_nat [of 53] by (simp add: pow2_add)
  have "2 ^ 52 * pow2 e \<le> (of_int m - 1 / 2) * pow2 e"
    by (rule mult_right_mono) (use m1 in simp_all)
  with lo have l: "2 ^ 52 * pow2 e < x" by linarith
  have xp: "0 < x"
  proof -
    have "0 < 2 ^ 52 * pow2 e" by simp
    with l show ?thesis by linarith
  qed
  show "pow2 (e + 52) \<le> \<bar>x\<bar>" unfolding p52 using l xp by simp
  have "(of_int m + 1 / 2) * pow2 e \<le> 2 ^ 53 * pow2 e"
    by (rule mult_right_mono) (use m2 in simp_all)
  with hi have "x < 2 ^ 53 * pow2 e" by linarith
  then show "\<bar>x\<bar> < pow2 (e + 53)" unfolding p53 using xp by simp
  have "(of_int m - 1 / 2) < x / pow2 e" using lo by (simp add: pos_less_divide_eq)
  moreover have "x / pow2 e < (of_int m + 1 / 2)" using hi by (simp add: pos_divide_less_eq)
  ultimately show "\<bar>x / pow2 e - of_int m\<bar> < 1 / 2" by linarith
qed

lemma fl64_sqrtI:
  assumes m: "2 ^ 52 < m" "m < 2 ^ 53" and e: "- 1074 \<le> e"
    and lo: "((of_int m - 1 / 2) * pow2 e)\<^sup>2 < a" and hi: "a < ((of_int m + 1 / 2) * pow2 e)\<^sup>2"
  shows "fl64 (sqrt a) = of_int m * pow2 e"
proof (rule fl64_posI [OF m e])
  have "0 < real_of_int m"
  proof -
    from m(1) have "0 < m" by simp
    then show ?thesis by simp
  qed
  then have p: "0 \<le> (of_int m + 1 / 2) * pow2 e" by simp
  show "(of_int m - 1 / 2) * pow2 e < sqrt a" by (rule real_less_rsqrt [OF lo])
  show "sqrt a < (of_int m + 1 / 2) * pow2 e"
    by (rule real_less_lsqrt [OF p hi])
qed

lemma fl64_small:
  "fl64 1 = 1" "fl64 2 = 2" "fl64 4 = 4" "fl64 (1 / 2) = 1 / 2" "fl64 (1 / 4) = 1 / 4"
  "fl64 (- 1) = - 1" "fl64 (- (1 / 2)) = - (1 / 2)"
  using fl64_exact [of 1 0] fl64_exact [of 2 0] fl64_exact [of 4 0] fl64_exact [of 1 "- 1"]
    fl64_exact [of 1 "- 2"] fl64_exact [of "- 1" 0] fl64_exact [of "- 1" "- 1"]
  by (simp_all add: pow2_def)

lemmas f64_ops = f64_add_def f64_sub_def f64_mul_def f64_div_def f64_sqrt_def

lemma pow2_succ: "pow2 (e + 1) = 2 * pow2 e"
  using pow2_of_nat [of 1] by (simp add: pow2_add)

lemma pow2_pred: "pow2 (e - 1) = pow2 e / 2"
  using pow2_of_nat [of 1] by (simp add: pow2_diff)

lemma rne_bound:
  assumes "\<bar>y\<bar> < of_int n"
  shows "\<bar>rne y\<bar> \<le> n"
proof -
  have a: "of_int \<lfloor>y\<rfloor> \<le> y" "y < of_int \<lfloor>y\<rfloor> + 1" by linarith+
  have "rne y = \<lfloor>y\<rfloor> \<or> rne y = \<lfloor>y\<rfloor> + 1" by (auto simp: rne_def Let_def)
  moreover have "- n \<le> \<lfloor>y\<rfloor>" using assms by (simp add: le_floor_iff abs_less_iff)
  moreover have "\<lfloor>y\<rfloor> + 1 \<le> n"
  proof -
    have "y < of_int n" using assms by linarith
    then have "\<lfloor>y\<rfloor> < n" by (simp add: floor_less_iff)
    then show ?thesis by simp
  qed
  ultimately show ?thesis by (auto simp: abs_le_iff)
qed

lemma fl64_representable:
  "\<exists>m e. fl64 x = of_int m * pow2 e \<and> \<bar>m\<bar> < 2 ^ 53 \<and> - 1074 \<le> e"
proof (cases "x = 0")
  case True
  have "fl64 x = of_int 0 * pow2 0" using True by simp
  then show ?thesis by (intro exI [of _ 0] conjI) simp_all
next
  case False
  let ?k = "\<lfloor>log 2 \<bar>x\<bar>\<rfloor>"
  let ?E = "max (?k - 52) (- 1074)"
  let ?M = "rne (x / pow2 ?E)"
  have f: "fl64 x = of_int ?M * pow2 ?E" using False by (simp add: fl64_def Let_def)
  have "\<bar>x\<bar> < pow2 (?k + 1)" by (rule floor_log2_bounds(2) [OF False])
  also have "\<dots> \<le> pow2 (?E + 53)" by (rule pow2_mono) simp
  also have "\<dots> = 2 ^ 53 * pow2 ?E" using pow2_of_nat [of 53] by (simp add: pow2_add)
  finally have "\<bar>x\<bar> / pow2 ?E < 2 ^ 53" by (simp add: pos_divide_less_eq)
  then have "\<bar>x / pow2 ?E\<bar> < of_int (2 ^ 53)" by simp
  then have M: "\<bar>?M\<bar> \<le> 2 ^ 53" by (rule rne_bound)
  show ?thesis
  proof (cases "\<bar>?M\<bar> = 2 ^ 53")
    case False
    with M have "\<bar>?M\<bar> < 2 ^ 53" by linarith
    with f show ?thesis by (intro exI [of _ ?M] exI [of _ ?E] conjI) simp_all
  next
    case True
    then obtain sg :: int where sg: "?M = sg * 2 ^ 53" "\<bar>sg\<bar> = 1"
      by (cases "0 \<le> ?M") (auto intro: that [of 1] that [of "- 1"])
    have "fl64 x = of_int (sg * 2 ^ 52) * pow2 (?E + 1)"
    proof -
      have "pow2 (?E + 1) = 2 * pow2 ?E" using pow2_of_nat [of 1] by (simp add: pow2_add)
      then show ?thesis unfolding f sg(1) by simp
    qed
    moreover have "\<bar>sg * 2 ^ 52\<bar> < 2 ^ 53" using sg(2) by (simp add: abs_mult)
    moreover have "- 1074 \<le> ?E + 1" by simp
    ultimately show ?thesis by blast
  qed
qed

lemma fl64_idem [simp]: "fl64 (fl64 x) = fl64 x"
proof -
  from fl64_representable [of x] obtain m e where
    "fl64 x = of_int m * pow2 e" "\<bar>m\<bar> < 2 ^ 53" "- 1074 \<le> e" by blast
  then show ?thesis using fl64_exact [of m e] by simp
qed

lemma fl64_half:
  assumes "pow2 (- 1021) \<le> \<bar>x\<bar>"
  shows "fl64 (x / 2) = fl64 x / 2"
proof -
  let ?k = "\<lfloor>log 2 \<bar>x\<bar>\<rfloor>"
  have nz: "x \<noteq> 0" using assms by auto
  have lo: "pow2 ?k \<le> \<bar>x\<bar>" and hi: "\<bar>x\<bar> < pow2 (?k + 1)"
    by (rule floor_log2_bounds [OF nz])+
  from assms hi have "pow2 (- 1021) < pow2 (?k + 1)" by linarith
  then have k: "- 1021 < ?k + 1" by (rule pow2_less_cancel)
  have p1: "pow2 (?k - 1) = pow2 ?k / 2" by (rule pow2_pred)
  have p2: "pow2 (?k - 1 + 1) = pow2 (?k + 1) / 2" by (simp add: pow2_succ)
  have fl2: "\<lfloor>log 2 \<bar>x / 2\<bar>\<rfloor> = ?k - 1"
  proof (rule floor_log2_eqI)
    show "pow2 (?k - 1) \<le> \<bar>x / 2\<bar>" unfolding p1 using lo by simp
    show "\<bar>x / 2\<bar> < pow2 (?k - 1 + 1)" unfolding p2 using hi by simp
  qed
  have E2: "max (\<lfloor>log 2 \<bar>x / 2\<bar>\<rfloor> - 52) (- 1074) = ?k - 53"
  proof -
    have a: "\<lfloor>log 2 \<bar>x / 2\<bar>\<rfloor> - 52 = ?k - 53" using fl2 by linarith
    have "- 1074 \<le> ?k - 53" using k by linarith
    then show ?thesis unfolding a by (rule max_absorb1)
  qed
  have E1: "max (?k - 52) (- 1074) = ?k - 52"
  proof -
    have "- 1074 \<le> ?k - 52" using k by linarith
    then show ?thesis by (rule max_absorb1)
  qed
  have p3: "pow2 (?k - 53) = pow2 (?k - 52) / 2"
  proof -
    have "?k - 53 = ?k - 52 - 1" by linarith
    then have "pow2 (?k - 53) = pow2 (?k - 52 - 1)" by (rule arg_cong)
    also have "\<dots> = pow2 (?k - 52) / 2" by (rule pow2_pred)
    finally show ?thesis .
  qed
  have q: "x / 2 / (pow2 (?k - 52) / 2) = x / pow2 (?k - 52)" by simp
  show ?thesis
    using nz unfolding fl64_def Let_def E1 E2 p3 q by simp
qed

lemma cube_square_bounds:
  fixes u :: real
  assumes "0 \<le> u" and "u \<le> 1 / 16"
  shows "(1 + u) ^ 3 \<le> (1 + 8 * u) * (1 - u)\<^sup>2" and "(1 - 8 * u) * (1 + u)\<^sup>2 \<le> (1 - u) ^ 3"
proof -
  have uu: "u\<^sup>2 \<le> u * (1 / 16)"
    unfolding power2_eq_square by (rule mult_left_mono [OF assms(2) assms(1)])
  have u2: "0 \<le> u\<^sup>2" by simp
  have "(1 + 8 * u) * (1 - u)\<^sup>2 - (1 + u) ^ 3 = u * (3 - 18 * u + 7 * u\<^sup>2)"
    by (simp add: power3_eq_cube power2_eq_square algebra_simps)
  moreover have "0 \<le> u * (3 - 18 * u + 7 * u\<^sup>2)"
    by (rule mult_nonneg_nonneg [OF assms(1)]) (use assms u2 in linarith)
  ultimately show "(1 + u) ^ 3 \<le> (1 + 8 * u) * (1 - u)\<^sup>2" by linarith
  have "(1 - u) ^ 3 - (1 - 8 * u) * (1 + u)\<^sup>2 = u * (3 + 18 * u + 7 * u\<^sup>2)"
    by (simp add: power3_eq_cube power2_eq_square algebra_simps)
  moreover have "0 \<le> u * (3 + 18 * u + 7 * u\<^sup>2)"
    by (rule mult_nonneg_nonneg [OF assms(1)]) (use assms u2 in linarith)
  ultimately show "(1 - 8 * u) * (1 + u)\<^sup>2 \<le> (1 - u) ^ 3" by linarith
qed

lemma fl64_nat:
  assumes "n < 2 ^ 53"
  shows "fl64 (real n) = real n"
proof -
  have "\<bar>int n\<bar> < 2 ^ 53" using assms by (simp add: of_nat_less_numeral_power_cancel_iff)
  from fl64_exact [OF this, of 0] show ?thesis by (simp add: pow2_def)
qed

lemma pair_weight_bound:
  fixes n :: nat
  assumes n1: "1 \<le> n" and n2: "n < 2 ^ 53"
  defines "s \<equiv> f64_sqrt (fl64 (real n))"
  defines "k \<equiv> f64_div 1 s"
  defines "p \<equiv> f64_mul k k"
  shows "\<bar>real n * p - 1\<bar> \<le> 1 / 2 ^ 50" and "pow2 (- 1021) \<le> p"
proof -
  define u :: real where "u = 1 / 2 ^ 53"
  define r where "r = sqrt (real n)"
  have u: "0 \<le> u" "u \<le> 1 / 16" "u \<le> 1 / 2" "0 < 1 - u" "u < 1" by (simp_all add: u_def)
  have r1: "1 \<le> r" using n1 by (simp add: r_def)
  have rr: "r\<^sup>2 = real n" by (simp add: r_def)
  have rp: "0 < r" using r1 by linarith
  have s: "s = fl64 r" by (simp add: s_def f64_sqrt_def fl64_nat [OF n2] r_def)
  have t1: "pow2 (- 1022) \<le> 1" by (simp add: pow2_def)
  have t28: "pow2 (- 1022) \<le> 1 / 2 ^ 28" by (simp add: pow2_def)
  have t58: "pow2 (- 1022) \<le> 1 / 2 ^ 58" by (simp add: pow2_def)
  have t59: "pow2 (- 1021) \<le> 1 / 2 ^ 59" by (simp add: pow2_def)
  have "pow2 (- 1022) \<le> r" using t1 r1 by linarith
  then have s1: "(1 - u) * r \<le> s" and s2: "s \<le> (1 + u) * r"
    unfolding s u_def by (rule fl64_bounds)+
  have sp: "0 < s"
  proof -
    have "0 < (1 - u) * r" using u rp by simp
    with s1 show ?thesis by linarith
  qed
  have r27: "r \<le> 2 ^ 27"
  proof (rule power2_le_imp_le)
    have "real n \<le> 2 ^ 53" using n2 by (simp add: of_nat_less_numeral_power_cancel_iff less_imp_le)
    then show "r\<^sup>2 \<le> (2 ^ 27)\<^sup>2" unfolding rr by simp
  qed simp
  have s28: "s \<le> 2 ^ 28"
  proof -
    have a: "(1 + u) * r \<le> 2 * 2 ^ 27" by (rule mult_mono) (use u r27 rp in simp_all)
    have b: "(2::real) ^ 28 = 2 * 2 ^ 27" by simp
    show ?thesis unfolding b using s2 a by (rule order_trans)
  qed
  have inv28: "1 / 2 ^ 28 \<le> 1 / s" using sp s28 by (simp add: frac_le)
  have "pow2 (- 1022) \<le> 1 / s" using t28 inv28 by (rule order_trans)
  then have k1': "(1 - u) * (1 / s) \<le> k" and k2': "k \<le> (1 + u) * (1 / s)"
    unfolding k_def f64_div_def u_def by (rule fl64_bounds)+
  have k1: "1 - u \<le> k * s" using k1' sp by (simp add: pos_divide_le_eq)
  have k2: "k * s \<le> 1 + u" using k2' sp by (simp add: pos_le_divide_eq)
  have kp: "0 < k"
  proof -
    have "0 < (1 - u) * (1 / s)" using u sp by simp
    with k1' show ?thesis by linarith
  qed
  have k29: "1 / 2 ^ 29 \<le> k"
  proof -
    have a: "1 / 2 * (1 / 2 ^ 28) \<le> (1 - u) * (1 / s)"
      by (rule mult_mono) (use u inv28 in simp_all)
    have b: "(1::real) / 2 ^ 29 = 1 / 2 * (1 / 2 ^ 28)" by simp
    show ?thesis unfolding b using a k1' by (rule order_trans)
  qed
  have kk58: "1 / 2 ^ 58 \<le> k * k"
  proof -
    have a: "1 / 2 ^ 29 * (1 / 2 ^ 29) \<le> k * k" by (rule mult_mono [OF k29 k29]) (use kp in simp_all)
    have b: "(1::real) / 2 ^ 58 = 1 / 2 ^ 29 * (1 / 2 ^ 29)" by simp
    show ?thesis unfolding b by (rule a)
  qed
  have "pow2 (- 1022) \<le> k * k" using t58 kk58 by (rule order_trans)
  then have p1: "(1 - u) * (k * k) \<le> p" and p2: "p \<le> (1 + u) * (k * k)"
    unfolding p_def f64_mul_def u_def by (rule fl64_bounds)+
  have p59: "1 / 2 ^ 59 \<le> p"
  proof -
    have a: "1 / 2 * (1 / 2 ^ 58) \<le> (1 - u) * (k * k)"
      by (rule mult_mono) (use u kk58 in simp_all)
    have b: "(1::real) / 2 ^ 59 = 1 / 2 * (1 / 2 ^ 58)" by simp
    show ?thesis unfolding b using a p1 by (rule order_trans)
  qed
  show "pow2 (- 1021) \<le> p" using t59 p59 by (rule order_trans)
  have pp: "0 < p" by (rule less_le_trans [OF _ p59]) simp
  have ks: "0 \<le> k * s" using kp sp by simp
  have ks2u: "(k * s)\<^sup>2 \<le> (1 + u)\<^sup>2" by (rule power_mono [OF k2 ks])
  have ks2l: "(1 - u)\<^sup>2 \<le> (k * s)\<^sup>2" by (rule power_mono [OF k1]) (use u in simp)
  have eq: "(k * k) * s\<^sup>2 = (k * s)\<^sup>2" by (simp add: power2_eq_square algebra_simps)
  have up: "p * s\<^sup>2 \<le> (1 + u) ^ 3"
  proof -
    have "p * s\<^sup>2 \<le> (1 + u) * (k * k) * s\<^sup>2" by (rule mult_right_mono [OF p2]) simp
    also have "\<dots> = (1 + u) * (k * s)\<^sup>2" using eq by (simp add: mult.assoc)
    also have "\<dots> \<le> (1 + u) * (1 + u)\<^sup>2" by (rule mult_left_mono [OF ks2u]) (use u in simp)
    finally show ?thesis by (simp add: power3_eq_cube power2_eq_square)
  qed
  have lw: "(1 - u) ^ 3 \<le> p * s\<^sup>2"
  proof -
    have "(1 - u) * (1 - u)\<^sup>2 \<le> (1 - u) * (k * s)\<^sup>2" by (rule mult_left_mono [OF ks2l]) (use u in simp)
    also have "\<dots> = (1 - u) * (k * k) * s\<^sup>2" using eq by (simp add: mult.assoc)
    also have "\<dots> \<le> p * s\<^sup>2" by (rule mult_right_mono [OF p1]) simp
    finally show ?thesis by (simp add: power3_eq_cube power2_eq_square)
  qed
  have ssl: "(1 - u)\<^sup>2 * real n \<le> s\<^sup>2"
  proof -
    have "((1 - u) * r)\<^sup>2 \<le> s\<^sup>2" by (rule power_mono [OF s1]) (use u rp in simp)
    then show ?thesis by (simp add: power_mult_distrib rr)
  qed
  have ssu: "s\<^sup>2 \<le> (1 + u)\<^sup>2 * real n"
  proof -
    have "s\<^sup>2 \<le> ((1 + u) * r)\<^sup>2" by (rule power_mono [OF s2]) (use sp in simp)
    then show ?thesis by (simp add: power_mult_distrib rr)
  qed
  have upper: "real n * p \<le> 1 + 8 * u"
  proof -
    have "p * ((1 - u)\<^sup>2 * real n) \<le> p * s\<^sup>2" by (rule mult_left_mono [OF ssl]) (use pp in simp)
    also have "\<dots> \<le> (1 + u) ^ 3" by (rule up)
    also have "\<dots> \<le> (1 + 8 * u) * (1 - u)\<^sup>2" by (rule cube_square_bounds(1) [OF u(1) u(2)])
    finally have "(real n * p) * (1 - u)\<^sup>2 \<le> (1 + 8 * u) * (1 - u)\<^sup>2" by (simp add: algebra_simps)
    moreover have "0 < (1 - u)\<^sup>2" using u by simp
    ultimately show ?thesis by (rule mult_right_le_imp_le)
  qed
  have lower: "1 - 8 * u \<le> real n * p"
  proof -
    have "(1 - 8 * u) * (1 + u)\<^sup>2 \<le> (1 - u) ^ 3" by (rule cube_square_bounds(2) [OF u(1) u(2)])
    also have "\<dots> \<le> p * s\<^sup>2" by (rule lw)
    also have "\<dots> \<le> p * ((1 + u)\<^sup>2 * real n)" by (rule mult_left_mono [OF ssu]) (use pp in simp)
    finally have "(1 - 8 * u) * (1 + u)\<^sup>2 \<le> (real n * p) * (1 + u)\<^sup>2" by (simp add: algebra_simps)
    moreover have "0 < (1 + u)\<^sup>2" using u by simp
    ultimately show ?thesis by (rule mult_right_le_imp_le)
  qed
  have e: "8 * u = 1 / 2 ^ 50" by (simp add: u_def)
  from upper lower have "\<bar>real n * p - 1\<bar> \<le> 8 * u" by linarith
  then show "\<bar>real n * p - 1\<bar> \<le> 1 / 2 ^ 50" unfolding e .
qed


subsection \<open>Mode selection of \<^verbatim>\<open>expectations\<close>\<close>

lemma expectations_mode_auto_mpdo:
  assumes "mpa \<noteq> []" and "\<forall>pleg \<in> set (plegs mpa). pleg = 2"
  shows "expectations_mode ''auto'' mpa = ''mpdo''"
proof -
  from assms(1) obtain lt rest where "mpa = lt # rest" by (cases mpa) auto
  with assms(2) have "\<not> (\<forall>pleg \<in> set (plegs mpa). pleg = 1)"
    by (auto simp: plegs_def)
  with assms(2) show ?thesis
    by (simp add: expectations_mode_def)
qed

lemma expectations_no_state_sites:
  "expectations c self [] mode
     = (if self = [] then ([], Some IndexError) else ([], Some (AssertionError 214)))"
  by (simp add: expectations_def probability_map_def)

lemma expectations_mode_auto_not_pmps: "expectations_mode ''auto'' mpa \<noteq> ''pmps''"
  by (simp add: expectations_mode_def)

text \<open>
  C10. For every state \<open>mpa\<close> in which every site has exactly two physical legs,
  \<^verbatim>\<open>expectations(mpa, mode='auto')\<close> yields the same sequence as
  \<^verbatim>\<open>expectations(mpa, mode='mpdo')\<close> and ends the same way, whatever the
  collaborators compute. With at least one site \<^verbatim>\<open>'auto'\<close> stands for \<^verbatim>\<open>'mpdo'\<close>;
  it never stands for \<^verbatim>\<open>'pmps'\<close>. On the state without sites \<^verbatim>\<open>'auto'\<close> stands for
  \<^verbatim>\<open>'mps'\<close>, but no reduction runs in either mode: both calls raise the same
  exception before their loop.
\<close>

theorem expectations_auto_is_mpdo:
  assumes "\<forall>pleg \<in> set (plegs mpa). pleg = 2"
  shows "expectations c self mpa ''auto'' = expectations c self mpa ''mpdo''
         \<and> (mpa \<noteq> [] \<longrightarrow> expectations_mode ''auto'' mpa = ''mpdo'')
         \<and> expectations_mode ''auto'' mpa \<noteq> ''pmps''"
proof (cases "mpa = []")
  case True
  then show ?thesis
    by (simp add: expectations_no_state_sites expectations_mode_auto_not_pmps)
next
  case False
  have m: "expectations_mode ''auto'' mpa = ''mpdo''"
    using False assms by (rule expectations_mode_auto_mpdo)
  have "expectations_mode ''mpdo'' mpa = ''mpdo''"
    by (simp add: expectations_mode_def)
  with m show ?thesis
    by (simp add: expectations_def)
qed

text \<open>The one-site Z measurement on a one-site density operator: in mode
  \<^verbatim>\<open>'auto'\<close> the loop over \<^verbatim>\<open>reductions_mpo\<close> runs.\<close>

theorem expectations_auto_is_mpdo_witness:
  "plegs [\<lparr>shape = [1, 2, 2, 1], dat = [1, 0, 0, 0]\<rparr>] = [2]
   \<and> (\<forall>c. expectations c [z_site] [\<lparr>shape = [1, 2, 2, 1], dat = [1, 0, 0, 0]\<rparr>] ''auto''
          = expectations c [z_site] [\<lparr>shape = [1, 2, 2, 1], dat = [1, 0, 0, 0]\<rparr>] ''mpdo'')
   \<and> (\<forall>c. expectations c [z_site] [\<lparr>shape = [1, 2, 2, 1], dat = [1, 0, 0, 0]\<rparr>] ''auto''
          = (map (\<lambda>rho_red. dot c [probability_map_lt z_site] (ravel c rho_red))
               (reductions_mpo c [\<lparr>shape = [1, 2, 2, 1], dat = [1, 0, 0, 0]\<rparr>] 1), None))
   \<and> expectations_mode ''auto'' [\<lparr>shape = [1, 2, 2, 1], dat = [1, 0, 0, 0]\<rparr>] = ''mpdo''"
proof -
  let ?rho = "\<lparr>shape = [1, 2, 2, 1], dat = [1, 0, 0, 0]\<rparr>"
  have h: "\<forall>pleg \<in> set (plegs [?rho]). pleg = 2"
    by (simp add: plegs_def)
  have p: "plegs [?rho] = [2]"
    by (simp add: plegs_def)
  have m: "expectations_mode ''auto'' [?rho] = ''mpdo''"
    using expectations_auto_is_mpdo [OF h] by simp
  have e: "expectations c [z_site] [?rho] ''auto'' = expectations c [z_site] [?rho] ''mpdo''" for c
    using expectations_auto_is_mpdo [OF h, of c "[z_site]"] by simp
  have r: "expectations c [z_site] [?rho] ''auto''
             = (map (\<lambda>rho_red. dot c [probability_map_lt z_site] (ravel c rho_red))
                  (reductions_mpo c [?rho] 1), None)" for c
    unfolding expectations_def Let_def m by (simp add: probability_map_def)
  show ?thesis using p m e r by simp
qed

subsection \<open>\<^verbatim>\<open>MPPovmList.estprob_from\<close>\<close>

text \<open>
  C9. \<^verbatim>\<open>MPPovmList.estprob_from\<close> is to yield, member by member, what
  \<^verbatim>\<open>MPPovm.estprob_from_mpplist\<close> returns. The code calls
  \<^verbatim>\<open>mpp.estprob_from_mpps\<close>, a name that \<^verbatim>\<open>MPPovm\<close> does not define: on lists of
  one single-site member each, the generator ends with \<^verbatim>\<open>AttributeError\<close> before it
  yields anything, whatever the call of a found attribute would return.
\<close>

theorem estprob_from_attribute_error:
  "estprob_from (\<lambda>name. False) call
     \<lparr>mpps = [[\<lparr>shape = [1, 2, 1, 1, 1], dat = [1 / 2, 1 / 2]\<rparr>]]\<rparr>
     \<lparr>mpps = [[\<lparr>shape = [1, 2, 1, 1, 1], dat = [1 / 2, 1 / 2]\<rparr>]]\<rparr>
     samples eps
   = ([], Some AttributeError)"
  by (simp add: estprob_from_def MPPovm_getattr_def MPPovm_attrs_def)

subsection \<open>The constructor's invariant\<close>

lemma MPPovm_init_iff: "MPPovm_init mpa = Inr r \<longleftrightarrow> (r = mpa \<and> list_all site_ok mpa)"
  by (auto simp: MPPovm_init_def plegs_def pdims_def site_ok_def list_all_iff)

lemma eye_ok:
  "eye ds = Inr (from_kron (map (\<lambda>ldim. reshape (np_eye ldim) [1, ldim, ldim]) ds))"
  by (simp add: eye_def MPPovm_init_iff from_kron_def list_all_iff site_ok_def reshape_def)

lemma sequence_err_map_Inr:
  assumes "\<And>x. x \<in> set xs \<Longrightarrow> f x = Inr (g x)"
  shows "sequence_err (map f xs) = Inr (map g xs)"
  using assms by (induction xs) auto

subsection \<open>\<^verbatim>\<open>embed\<close> and \<^verbatim>\<open>block\<close>\<close>

lemma embed_value:
  assumes "MPPovm_init self = Inr self"
  shows "embed self n (int s) d = Inr (embedding self n d s)"
proof -
  let ?l = "from_kron (map (\<lambda>ldim. reshape (np_eye ldim) [1, ldim, ldim]) (replicate s d))"
  let ?r = "from_kron (map (\<lambda>ldim. reshape (np_eye ldim) [1, ldim, ldim])
                         (replicate (nat (n - int (length self) - int s)) d))"
  have l: "eye (replicate s d) = Inr ?l" by (rule eye_ok)
  have r: "eye (replicate (nat (n - int (length self) - int s)) d) = Inr ?r" by (rule eye_ok)
  have okl: "list_all site_ok ?l" using l by (simp add: eye_def MPPovm_init_iff)
  have okr: "list_all site_ok ?r" using r by (simp add: eye_def MPPovm_init_iff)
  have oks: "list_all site_ok self" using assms by (simp add: MPPovm_init_iff)
  have "MPPovm_init (outer [?l, self, ?r]) = Inr (outer [?l, self, ?r])"
    using okl okr oks by (simp add: MPPovm_init_iff outer_def)
  then show ?thesis
    by (simp add: embed_def l r Let_def embedding_def)
qed

lemma length_embedding:
  "int s + int (length self) \<le> n \<Longrightarrow> int (length (embedding self n d s)) = n"
  by (simp add: embedding_def outer_def from_kron_def)

lemma block_value:
  assumes ne: "self \<noteq> []"
    and uni: "\<forall>h \<in> set (hdims self). h = d"
    and ok: "MPPovm_init self = Inr self"
    and len: "int (length self) \<le> nr_sites"
  shows "block self nr_sites =
           Inr \<lparr>mpps = map (embedding self nr_sites d) [0..<nat (nr_sites - int (length self) + 1)]\<rparr>"
proof -
  from ne obtain lt rest where self: "self = lt # rest" by (cases self) auto
  then have hd: "hdims self = d # hdims rest" using uni by (simp add: hdims_def)
  let ?ss = "[0..<nat (nr_sites - int (length self) + 1)]"
  have seq: "sequence_err (map (\<lambda>startsite. embed self nr_sites (int startsite) d) ?ss)
              = Inr (map (embedding self nr_sites d) ?ss)"
    by (rule sequence_err_map_Inr) (simp add: embed_value [OF ok])
  have lens: "\<forall>mpp \<in> set (map (embedding self nr_sites d) ?ss). int (length mpp) = nr_sites"
  proof
    fix mpp assume "mpp \<in> set (map (embedding self nr_sites d) ?ss)"
    then obtain s where s: "s \<in> set ?ss" and m: "mpp = embedding self nr_sites d s" by auto
    from s have "int s + int (length self) \<le> nr_sites" by auto
    then show "int (length mpp) = nr_sites" unfolding m by (rule length_embedding)
  qed
  have "?ss \<noteq> []" using len by auto
  then have "map (embedding self nr_sites d) ?ss ! 0 \<in> set (map (embedding self nr_sites d) ?ss)"
    by (metis length_greater_0_conv length_map nth_mem)
  with lens have l0: "int (length (map (embedding self nr_sites d) ?ss ! 0)) = nr_sites" by blast
  have init: "MPPovmList_init (map (embedding self nr_sites d) ?ss)
               = Inr \<lparr>mpps = map (embedding self nr_sites d) ?ss\<rparr>"
    unfolding MPPovmList_init_def using lens l0
    by (metis (no_types, lifting) of_nat_eq_iff)
  have un: "\<forall>h \<in> set (hdims self). h = d" by (rule uni)
  show ?thesis
    unfolding block_def hd list.case using un seq init hd by simp
qed

text \<open>
  C8 (as amended). For every MPPovm \<open>self\<close> with at least one site and uniform local
  Hilbert space dimension \<open>d\<close>, and every \<open>nr_sites\<close> not below its length,
  \<^verbatim>\<open>self.block(nr_sites)\<close> returns a list of exactly \<open>nr_sites - len(self) + 1\<close>
  members, and the member at index \<open>s\<close> is the tensor product of the identity filler
  on \<open>s\<close> sites, \<open>self\<close>, and the identity filler on the remaining
  \<open>nr_sites - len(self) - s\<close> sites.
\<close>

theorem block_sliding_window:
  assumes "self \<noteq> []"
    and "\<forall>h \<in> set (hdims self). h = d"
    and "MPPovm_init self = Inr self"
    and "int (length self) \<le> nr_sites"
  shows "\<exists>b. block self nr_sites = Inr b
           \<and> int (length (mpps b)) = nr_sites - int (length self) + 1
           \<and> (\<forall>s < length (mpps b).
                 \<exists>l r. eye (replicate s d) = Inr l
                     \<and> eye (replicate (nat (nr_sites - int (length self) - int s)) d) = Inr r
                     \<and> mpps b ! s = outer [l, self, r])"
proof -
  let ?b = "\<lparr>mpps = map (embedding self nr_sites d) [0..<nat (nr_sites - int (length self) + 1)]\<rparr>"
  have b: "block self nr_sites = Inr ?b" using assms by (rule block_value)
  have n: "int (length (mpps ?b)) = nr_sites - int (length self) + 1"
    using assms(4) by simp
  have m: "\<forall>s < length (mpps ?b).
             \<exists>l r. eye (replicate s d) = Inr l
                 \<and> eye (replicate (nat (nr_sites - int (length self) - int s)) d) = Inr r
                 \<and> mpps ?b ! s = outer [l, self, r]"
    by (simp add: eye_ok embedding_def)
  from b n m show ?thesis by blast
qed

text \<open>The concrete case of the spec: \<^verbatim>\<open>block(3)\<close> of a two-site MPPovm yields
  exactly the two embeddings \<open>self \<otimes> eye\<close> and \<open>eye \<otimes> self\<close>.\<close>

theorem block_sliding_window_witness:
  "\<exists>b. block [z_site, z_site] 3 = Inr b
      \<and> length (mpps b) = 2
      \<and> mpps b ! 0 = [z_site, z_site, eye_site]
      \<and> mpps b ! 1 = [eye_site, z_site, z_site]"
proof -
  have h1: "[z_site, z_site] \<noteq> []" by simp
  have h2: "\<forall>h \<in> set (hdims [z_site, z_site]). h = 2" by (simp add: hdims_def z_site_def)
  have h3: "MPPovm_init [z_site, z_site] = Inr [z_site, z_site]"
    by (simp add: MPPovm_init_iff site_ok_def z_site_def)
  have h4: "int (length [z_site, z_site]) \<le> 3" by simp
  from block_sliding_window [OF h1 h2 h3 h4]
  obtain b where b: "block [z_site, z_site] 3 = Inr b"
    and n: "int (length (mpps b)) = 3 - int (length [z_site, z_site]) + 1"
    and m: "\<forall>s < length (mpps b).
               \<exists>l r. eye (replicate s 2) = Inr l
                   \<and> eye (replicate (nat (3 - int (length [z_site, z_site]) - int s)) 2) = Inr r
                   \<and> mpps b ! s = outer [l, [z_site, z_site], r]"
    by blast
  have e0: "eye [] = Inr []" by (simp add: eye_ok from_kron_def)
  have u: "[0..<(2::nat)] = [0, 1]" by (simp add: numeral_2_eq_2)
  have e1: "eye [2] = Inr [eye_site]"
    by (simp add: eye_ok from_kron_def reshape_def np_eye_def eye_site_def u)
  from n have len: "length (mpps b) = 2" by simp
  from m len have "\<exists>l r. eye (replicate 0 2) = Inr l
                   \<and> eye (replicate (nat (3 - int (length [z_site, z_site]) - int 0)) 2) = Inr r
                   \<and> mpps b ! 0 = outer [l, [z_site, z_site], r]"
    by (metis zero_less_numeral)
  then have m0: "mpps b ! 0 = [z_site, z_site, eye_site]"
    using e0 e1 by (auto simp: outer_def)
  from m len have "\<exists>l r. eye (replicate 1 2) = Inr l
                   \<and> eye (replicate (nat (3 - int (length [z_site, z_site]) - int 1)) 2) = Inr r
                   \<and> mpps b ! 1 = outer [l, [z_site, z_site], r]"
    by (metis one_less_numeral_iff semiring_norm(76))
  then have m1: "mpps b ! 1 = [eye_site, z_site, z_site]"
    using e0 e1 by (auto simp: outer_def)
  from b len m0 m1 show ?thesis by blast
qed

text \<open>
  C8 (as stated) fails on the MPPovm without sites, which has uniform dimension
  trivially: \<^verbatim>\<open>self.hdims[0]\<close> raises \<^verbatim>\<open>IndexError\<close>, and no list is returned.
\<close>

theorem block_empty_counterexample: "block [] 3 = Inl IndexError"
  by (simp add: block_def hdims_def)

subsection \<open>\<^verbatim>\<open>repeat\<close>\<close>

lemma repeat_value:
  assumes ne: "self \<noteq> []" and ok: "MPPovm_init self = Inr self"
  shows "repeat self (int k * int (length self)) = Inr (outer (replicate k self))"
proof -
  have oks: "list_all site_ok self" using ok by (simp add: MPPovm_init_iff)
  have "list_all site_ok (concat (replicate k self))"
    using oks by (induction k) auto
  then have "MPPovm_init (outer (replicate k self)) = Inr (outer (replicate k self))"
    by (simp add: MPPovm_init_iff outer_def)
  moreover have "length self \<noteq> 0" using ne by simp
  ultimately show ?thesis
    by (simp add: repeat_def)
qed

text \<open>
  C7. For every MPPovm \<open>self\<close> of length \<open>L\<close> whose bond dimension at the seam (the
  right bond of site \<open>L\<close>) is 1, and every \<open>k \<ge> 1\<close>, \<^verbatim>\<open>self.repeat(k * L)\<close> returns the
  \<open>k\<close>-fold tensor product of \<open>self\<close> with itself: the same chain of local tensors.
  So their distance is at most \<open>1e-10\<close> under every distance \<open>normdist\<close> that is zero
  between a chain and itself, as \<^verbatim>\<open>mp.norm(a - b)\<close> in exact arithmetic is.
\<close>

theorem repeat_multiple_is_tensor_power:
  assumes "seam_bdim self = Some 1"
    and "MPPovm_init self = Inr self"
    and "1 \<le> k"
    and "\<forall>a. normdist a a = (0::real)"
  shows "\<exists>r. repeat self (int k * int (length self)) = Inr r
           \<and> r = outer (replicate k self)
           \<and> normdist r (outer (replicate k self)) \<le> 1 / 10 ^ 10"
proof -
  from assms(1) have ne: "self \<noteq> []" by (auto simp: seam_bdim_def)
  from repeat_value [OF ne assms(2), of k] assms(4) show ?thesis by simp
qed

theorem repeat_multiple_is_tensor_power_witness:
  "seam_bdim [z_site, z_site] = Some 1
   \<and> repeat [z_site, z_site] 4 = Inr [z_site, z_site, z_site, z_site]
   \<and> (if [z_site, z_site, z_site, z_site] = outer (replicate 2 [z_site, z_site])
       then 0 else 1) \<le> (1::real) / 10 ^ 10"
proof -
  have h1: "seam_bdim [z_site, z_site] = Some 1" by (simp add: seam_bdim_def z_site_def)
  have h2: "MPPovm_init [z_site, z_site] = Inr [z_site, z_site]"
    by (simp add: MPPovm_init_iff site_ok_def z_site_def)
  have h3: "(1::nat) \<le> 2" by simp
  have h4: "\<forall>a::mparray. (\<lambda>a b. if a = b then 0 else (1::real)) a a = 0" by simp
  have r: "outer (replicate 2 [z_site, z_site]) = [z_site, z_site, z_site, z_site]"
    by (simp add: outer_def numeral_2_eq_2)
  from repeat_multiple_is_tensor_power
         [where normdist = "\<lambda>a b. if a = b then 0 else (1::real)", OF h1 h2 h3 h4] h1 r
  show ?thesis by simp
qed

subsection \<open>Local POVMs\<close>

lemma pair_body_append:
  "pair_body c i j (length A, A @ replicate d 0 # replicate d 0 # R)
     = (length A + 2, (A @ [rowp c d i j, rowp (- c) d i j]) @ R)"
  by (simp add: pair_body_def setitem_def nth_append list_update_append rowp_def Let_def)

lemma length_concat_pairs: "length (concat (map (\<lambda>j. [g j, h j]) js)) = 2 * length js"
  by (induction js) auto

lemma sum_list_Suc: "sum_list (map (\<lambda>i. Suc (g i)) xs) = sum_list (map g xs) + length xs"
  by (induction xs) auto

lemma inner_loop_closed:
  "fold (\<lambda>j. pair_body c i j) js (length A, A @ replicate (2 * length js + m) (replicate d 0))
     = (length A + 2 * length js,
        A @ concat (map (\<lambda>j. [rowp c d i j, rowp (- c) d i j]) js) @ replicate m (replicate d 0))"
proof (induction js arbitrary: A)
  case Nil
  then show ?case by simp
next
  case (Cons j js)
  have r: "replicate (2 * length (j # js) + m) (replicate d (0::complex))
            = replicate d 0 # replicate d 0 # replicate (2 * length js + m) (replicate d 0)"
    by simp
  have "fold (\<lambda>j. pair_body c i j) (j # js)
          (length A, A @ replicate (2 * length (j # js) + m) (replicate d 0))
        = fold (\<lambda>j. pair_body c i j) js
            (length (A @ [rowp c d i j, rowp (- c) d i j]),
             (A @ [rowp c d i j, rowp (- c) d i j]) @ replicate (2 * length js + m) (replicate d 0))"
    unfolding r by (simp only: fold_simps pair_body_append) simp
  also have "\<dots> = (length (A @ [rowp c d i j, rowp (- c) d i j]) + 2 * length js,
        (A @ [rowp c d i j, rowp (- c) d i j]) @ concat (map (\<lambda>j. [rowp c d i j, rowp (- c) d i j]) js)
           @ replicate m (replicate d 0))"
    by (rule Cons.IH)
  finally show ?case by simp
qed

lemma outer_loop_closed:
  "fold (\<lambda>i st. fold (\<lambda>j. pair_body c i j) (f i) st) is
      (length A, A @ replicate (2 * sum_list (map (\<lambda>i. length (f i)) is) + m) (replicate d 0))
     = (length A + 2 * sum_list (map (\<lambda>i. length (f i)) is),
        A @ concat (map (\<lambda>i. concat (map (\<lambda>j. [rowp c d i j, rowp (- c) d i j]) (f i))) is)
          @ replicate m (replicate d 0))"
proof (induction "is" arbitrary: A)
  case Nil
  then show ?case by simp
next
  case (Cons i "is")
  let ?n = "sum_list (map (\<lambda>i. length (f i)) is)"
  let ?B = "A @ concat (map (\<lambda>j. [rowp c d i j, rowp (- c) d i j]) (f i))"
  have lenB: "length ?B = length A + 2 * length (f i)"
    by (simp add: length_concat_pairs)
  have r: "2 * sum_list (map (\<lambda>i. length (f i)) (i # is)) + m = 2 * length (f i) + (2 * ?n + m)"
    by simp
  have "fold (\<lambda>j. pair_body c i j) (f i)
          (length A, A @ replicate (2 * sum_list (map (\<lambda>i. length (f i)) (i # is)) + m) (replicate d 0))
        = (length ?B, ?B @ replicate (2 * ?n + m) (replicate d 0))"
    unfolding r lenB by (simp only: inner_loop_closed) simp
  then have "fold (\<lambda>i st. fold (\<lambda>j. pair_body c i j) (f i) st) (i # is)
      (length A, A @ replicate (2 * sum_list (map (\<lambda>i. length (f i)) (i # is)) + m) (replicate d 0))
      = fold (\<lambda>i st. fold (\<lambda>j. pair_body c i j) (f i) st) is
          (length ?B, ?B @ replicate (2 * ?n + m) (replicate d 0))"
    by simp
  also have "\<dots> = (length ?B + 2 * ?n,
        ?B @ concat (map (\<lambda>i. concat (map (\<lambda>j. [rowp c d i j, rowp (- c) d i j]) (f i))) is)
          @ replicate m (replicate d 0))"
    by (rule Cons.IH)
  finally show ?case using lenB by simp
qed

lemma pair_count: "2 * sum_list (map (\<lambda>i. length [i + 1..<d]) [0..<d - 1]) = d * (d - 1)"
proof (induction d)
  case 0
  then show ?case by simp
next
  case (Suc d)
  show ?case
  proof (cases d)
    case 0
    then show ?thesis by simp
  next
    case (Suc e)
    have "sum_list (map (\<lambda>i. length [i + 1..<Suc d]) [0..<d])
          = sum_list (map (\<lambda>i. length [i + 1..<d] + 1) [0..<d])"
      by (rule arg_cong [where f = sum_list], rule map_cong) auto
    also have "\<dots> = sum_list (map (\<lambda>i. length [i + 1..<d]) [0..<d]) + d"
      using sum_list_Suc [of "\<lambda>i. length [i + 1..<d]" "[0..<d]"] by simp
    also have "sum_list (map (\<lambda>i. length [i + 1..<d]) [0..<d])
               = sum_list (map (\<lambda>i. length [i + 1..<d]) [0..<d - 1])"
      using Suc by simp
    finally show ?thesis using Suc.IH Suc by (simp add: algebra_simps)
  qed
qed

lemma pair_loops_closed: "pair_loops c d = (d * (d - 1), pair_rows c d)"
proof -
  have "pair_loops c d =
     fold (\<lambda>i st. fold (\<lambda>j. pair_body c i j) [i + 1..<d] st) [0..<d - 1]
       (length ([]::complex list list),
        [] @ replicate (2 * sum_list (map (\<lambda>i. length [i + 1..<d]) [0..<d - 1]) + 0) (replicate d 0))"
    by (simp only: pair_loops_def np_zeros_def pair_count) simp
  also have "\<dots> = (length ([]::complex list list) + 2 * sum_list (map (\<lambda>i. length [i + 1..<d]) [0..<d - 1]),
        [] @ pair_rows c d @ replicate 0 (replicate d 0))"
    unfolding pair_rows_def by (rule outer_loop_closed)
  finally show ?thesis using pair_count [of d] by simp
qed


lemma nth_concat_uniform:
  assumes "\<forall>x \<in> set xs. length (f x) = n" and "a < length xs" and "b < n"
  shows "concat (map f xs) ! (a * n + b) = f (xs ! a) ! b"
  using assms
proof (induction xs arbitrary: a)
  case Nil
  then show ?case by simp
next
  case (Cons x xs)
  show ?case
  proof (cases a)
    case 0
    with Cons.prems show ?thesis by (simp add: nth_append)
  next
    case (Suc a')
    have "Suc a' * n + b = length (f x) + (a' * n + b)" using Cons.prems by simp
    then have "concat (map f (x # xs)) ! (a * n + b) = concat (map f xs) ! (a' * n + b)"
      using Suc by (simp add: nth_append)
    also have "\<dots> = f (xs ! a') ! b"
      using Cons.prems Suc by (intro Cons.IH) auto
    finally show ?thesis using Suc by simp
  qed
qed

lemma nth_outer_conj:
  assumes "a < length v" and "b < length v"
  shows "outer_conj v ! (a * length v + b) = c128_mul (v ! a) (cnj (v ! b))"
proof -
  have "outer_conj v ! (a * length v + b) = map (\<lambda>y. c128_mul (v ! a) (cnj y)) v ! b"
    unfolding outer_conj_def using assms
    by (intro nth_concat_uniform) auto
  then show ?thesis using assms by simp
qed

lemma nth_np_eye:
  assumes "a < d" and "b < d"
  shows "dat (np_eye d) ! (a * d + b) = (if a = b then 1 else 0)"
proof -
  have "dat (np_eye d) ! (a * d + b) = map (\<lambda>j. if [0..<d] ! a = j then 1 else 0) [0..<d] ! b"
    unfolding np_eye_def using assms
    by (simp only: ltens.simps) (intro nth_concat_uniform, auto)
  then show ?thesis using assms by simp
qed

lemma sum_list_concat_map:
  "sum_list (map h (concat (map F xs))) = sum_list (map (\<lambda>x. sum_list (map h (F x))) xs)"
  by (induction xs) auto

lemma nth_rowp:
  assumes "i < d" and "j < d" and "a < d"
  shows "rowp c d i j ! a = (if a = j then c else if a = i then 1 else 0)"
  using assms by (simp add: rowp_def nth_list_update)

text \<open>What the sum over the rows of a pair needs to know of the map \<open>g\<close> from two
  entries of a row to an entry of its element, and of the scaling \<open>sc\<close>.\<close>

lemma pair_term:
  fixes g :: "complex \<Rightarrow> complex \<Rightarrow> complex" and sc :: "complex \<Rightarrow> complex"
  assumes ij: "i < j" and j: "j < d" and a: "a < d" and b: "b < d"
    and g0: "\<And>y. g 0 y = 0" "\<And>x. g x 0 = 0"
    and g1: "g 1 1 = p" "g c c = p" "g (- c) (- c) = p"
    and gx: "g 1 c + g 1 (- c) = 0" "g c 1 + g (- c) 1 = 0"
    and sc: "sc 0 = 0" "\<And>z. sc (- z) = - sc z"
  shows "sc (g (rowp c d i j ! a) (rowp c d i j ! b))
         + sc (g (rowp (- c) d i j ! a) (rowp (- c) d i j ! b))
         = (if a = b \<and> (a = i \<or> a = j) then 2 * sc p else (0::complex))"
proof -
  have i: "i < d" using ij j by simp
  have n1: "g 1 (- c) = - g 1 c" using gx(1) by (simp add: add_eq_0_iff)
  have n2: "g (- c) 1 = - g c 1" using gx(2) by (simp add: add_eq_0_iff)
  show ?thesis
    using ij
    by (auto simp: nth_rowp [OF i j a] nth_rowp [OF i j b] g0 g1 n1 n2 sc)
qed

lemma inner_count:
  assumes "a < d" and "i < d"
  shows "(\<Sum>j\<leftarrow>[i + 1..<d]. if a = i \<or> a = j then 1 else 0)
           = (if a = i then d - 1 - i else if i < a then 1 else (0::nat))"
proof (cases "a = i")
  case True
  then show ?thesis by (simp add: sum_list_triv)
next
  case False
  have "(\<Sum>j\<leftarrow>[i + 1..<d]. if a = i \<or> a = j then 1 else 0)
         = (\<Sum>j\<leftarrow>[i + 1..<d]. if a = j then 1 else (0::nat))"
    using False by simp
  also have "\<dots> = (\<Sum>j \<in> {i + 1..<d}. if a = j then 1 else 0)"
    by (simp add: interv_sum_list_conv_sum_set_nat)
  also have "\<dots> = (if a \<in> {i + 1..<d} then 1 else 0)"
    by simp
  finally show ?thesis using False assms by auto
qed

lemma outer_count:
  assumes "a < d"
  shows "(\<Sum>i\<leftarrow>[0..<d - 1]. \<Sum>j\<leftarrow>[i + 1..<d]. if a = i \<or> a = j then 1 else 0) = d - (1::nat)"
proof -
  have "(\<Sum>i\<leftarrow>[0..<d - 1]. \<Sum>j\<leftarrow>[i + 1..<d]. if a = i \<or> a = j then 1 else (0::nat))
        = (\<Sum>i\<leftarrow>[0..<d - 1]. if a = i then d - 1 - i else if i < a then 1 else 0)"
  proof (rule arg_cong [where f = sum_list], rule map_cong [OF refl])
    fix i assume "i \<in> set [0..<d - 1]"
    then have "i < d" by auto
    from inner_count [OF assms this]
    show "(\<Sum>j\<leftarrow>[i + 1..<d]. if a = i \<or> a = j then 1 else 0)
           = (if a = i then d - 1 - i else if i < a then 1 else (0::nat))" .
  qed
  also have "\<dots> = (\<Sum>i \<in> {0..<d - 1}. if a = i then d - 1 - i else if i < a then 1 else 0)"
    by (simp add: interv_sum_list_conv_sum_set_nat)
  also have "\<dots> = (\<Sum>i \<in> {0..<d - 1}. (if a = i then d - 1 - a else 0) + (if i < a then 1 else 0))"
    by (rule sum.cong) auto
  also have "\<dots> = (\<Sum>i \<in> {0..<d - 1}. if a = i then d - 1 - a else 0)
                   + (\<Sum>i \<in> {0..<d - 1}. if i < a then 1 else 0)"
    by (rule sum.distrib)
  also have "(\<Sum>i \<in> {0..<d - 1}. if a = i then d - 1 - a else 0) = d - 1 - a"
    by simp
  also have "(\<Sum>i \<in> {0..<d - 1}. if i < a then 1 else (0::nat)) = card {i \<in> {0..<d - 1}. i < a}"
    by (simp add: sum.If_cases Int_def)
  also have "{i \<in> {0..<d - 1}. i < a} = {0..<a}"
    using assms by auto
  finally show ?thesis using assms by simp
qed

lemma of_nat_sum_list_map:
  "(of_nat (sum_list (map f xs)) :: complex) = sum_list (map (\<lambda>x. of_nat (f x)) xs)"
  by (induction xs) auto

lemma pair_rows_sum:
  fixes g :: "complex \<Rightarrow> complex \<Rightarrow> complex" and sc :: "complex \<Rightarrow> complex"
  assumes a: "a < d" and b: "b < d"
    and g0: "\<And>y. g 0 y = 0" "\<And>x. g x 0 = 0"
    and g1: "g 1 1 = p" "g c c = p" "g (- c) (- c) = p"
    and gx: "g 1 c + g 1 (- c) = 0" "g c 1 + g (- c) 1 = 0"
    and sc: "sc 0 = 0" "\<And>z. sc (- z) = - sc z"
  shows "sum_list (map (\<lambda>v. sc (g (v ! a) (v ! b))) (pair_rows c d))
           = (if a = b then 2 * sc p * of_nat (d - 1) else 0)"
proof -
  let ?h = "\<lambda>v::complex list. sc (g (v ! a) (v ! b))"
  let ?t = "\<lambda>i j. if a = b \<and> (a = i \<or> a = j) then 2 * sc p else (0::complex)"
  have inner: "sum_list (map ?h (concat (map (\<lambda>j. [rowp c d i j, rowp (- c) d i j]) [i + 1..<d])))
                = sum_list (map (?t i) [i + 1..<d])" for i
  proof -
    have "sum_list (map ?h (concat (map (\<lambda>j. [rowp c d i j, rowp (- c) d i j]) [i + 1..<d])))
          = sum_list (map (\<lambda>j. ?h (rowp c d i j) + ?h (rowp (- c) d i j)) [i + 1..<d])"
      by (simp add: sum_list_concat_map)
    also have "\<dots> = sum_list (map (?t i) [i + 1..<d])"
    proof (rule arg_cong [where f = sum_list], rule map_cong [OF refl])
      fix j assume "j \<in> set [i + 1..<d]"
      then have "i < j" "j < d" by auto
      from pair_term [of i j d a b g p c sc, OF this a b g0 g1 gx sc]
      show "?h (rowp c d i j) + ?h (rowp (- c) d i j) = ?t i j" .
    qed
    finally show ?thesis .
  qed
  have "sum_list (map ?h (pair_rows c d))
          = sum_list (map (\<lambda>i. sum_list (map (?t i) [i + 1..<d])) [0..<d - 1])"
    unfolding pair_rows_def by (subst sum_list_concat_map) (simp only: inner)
  also have "\<dots> = (if a = b then 2 * sc p * of_nat (d - 1) else 0)"
  proof (cases "a = b")
    case False
    then show ?thesis by simp
  next
    case True
    have "sum_list (map (\<lambda>i. sum_list (map (?t i) [i + 1..<d])) [0..<d - 1])
          = sum_list (map (\<lambda>i. sum_list (map (\<lambda>j. 2 * sc p * of_nat (if a = i \<or> a = j then 1 else 0))
                                              [i + 1..<d])) [0..<d - 1])"
      using True by (intro arg_cong [where f = sum_list] map_cong refl) auto
    also have "\<dots> = 2 * sc p
                       * of_nat (\<Sum>i\<leftarrow>[0..<d - 1]. \<Sum>j\<leftarrow>[i + 1..<d]. if a = i \<or> a = j then 1 else 0)"
      by (simp only: sum_list_const_mult of_nat_sum_list_map)
    finally show ?thesis using True outer_count [OF a] by simp
  qed
  finally show ?thesis .
qed

lemma length_rowp: "length (rowp c d i j) = d"
  by (simp add: rowp_def)

lemma pair_rows_length: "v \<in> set (pair_rows c d) \<Longrightarrow> length v = d"
  by (auto simp: pair_rows_def length_rowp)

lemma length_pair_rows: "length (pair_rows c d) = d * (d - 1)"
proof -
  have "length (pair_rows c d)
          = sum_list (map (\<lambda>i. length (concat (map (\<lambda>j. [rowp c d i j, rowp (- c) d i j]) [i + 1..<d])))
               [0..<d - 1])"
    by (simp add: pair_rows_def length_concat comp_def)
  also have "\<dots> = sum_list (map (\<lambda>i. 2 * length [i + 1..<d]) [0..<d - 1])"
    by (simp only: length_concat_pairs)
  also have "\<dots> = 2 * sum_list (map (\<lambda>i. length [i + 1..<d]) [0..<d - 1])"
    by (simp only: sum_list_const_mult)
  finally show ?thesis by (simp only: pair_count)
qed

lemma pair_elements_sum:
  fixes sc :: "complex \<Rightarrow> complex"
  assumes a: "a < d" and b: "b < d"
    and g0: "\<And>y. c128_mul (dv 0) (cnj (dv y)) = 0" "\<And>x. c128_mul (dv x) (cnj (dv 0)) = 0"
    and g1: "c128_mul (dv 1) (cnj (dv 1)) = p" "c128_mul (dv c) (cnj (dv c)) = p"
            "c128_mul (dv (- c)) (cnj (dv (- c))) = p"
    and gx: "c128_mul (dv 1) (cnj (dv c)) + c128_mul (dv 1) (cnj (dv (- c))) = 0"
            "c128_mul (dv c) (cnj (dv 1)) + c128_mul (dv (- c)) (cnj (dv 1)) = 0"
    and sc: "sc 0 = 0" "\<And>z. sc (- z) = - sc z"
  shows "sum_list (map (\<lambda>e. sc (e ! (a * d + b)))
            (init_elements_from_vectors (map (map dv) (pair_rows c d))))
         = (if a = b then 2 * sc p * of_nat (d - 1) else 0)"
proof -
  let ?g = "\<lambda>x y. c128_mul (dv x) (cnj (dv y))"
  have "sum_list (map (\<lambda>e. sc (e ! (a * d + b)))
            (init_elements_from_vectors (map (map dv) (pair_rows c d))))
        = sum_list (map (\<lambda>v. sc (?g (v ! a) (v ! b))) (pair_rows c d))"
    unfolding init_elements_from_vectors_def map_map
  proof (rule arg_cong [where f = sum_list], rule map_cong [OF refl])
    fix v assume "v \<in> set (pair_rows c d)"
    then have l: "length v = d" by (rule pair_rows_length)
    have "outer_conj (map dv v) ! (a * length (map dv v) + b)
          = c128_mul (map dv v ! a) (cnj (map dv v ! b))"
      by (rule nth_outer_conj) (simp_all add: l a b)
    then show "((\<lambda>e. sc (e ! (a * d + b))) \<circ> (outer_conj \<circ> map dv)) v = sc (?g (v ! a) (v ! b))"
      using l a b by simp
  qed
  also have "\<dots> = (if a = b then 2 * sc p * of_nat (d - 1) else 0)"
    by (rule pair_rows_sum [of a d b ?g p c sc, OF a b g0 g1 gx sc])
  finally show ?thesis .
qed

text \<open>The products of complex128 numbers that occur.\<close>

lemma c128_mul_of_real:
  "c128_mul (complex_of_real x) (complex_of_real y) = complex_of_real (f64_mul x y)"
  by (simp add: c128_mul_def f64_ops complex_eq_iff)

lemma c128_mul_real_right:
  "c128_mul z (complex_of_real w) = Complex (f64_mul (Re z) w) (f64_mul (Im z) w)"
  by (simp add: c128_mul_def f64_ops)

lemma c128_scale_facts:
  "c128_mul 0 (complex_of_real w) = 0"
  "c128_mul (- z) (complex_of_real w) = - c128_mul z (complex_of_real w)"
  by (simp_all add: c128_mul_real_right f64_ops fl64_minus complex_eq_iff)

lemma X_entries:
  fixes s :: real
  defines "dv \<equiv> \<lambda>x. complex_of_real (f64_div (Re x) s)"
  defines "p \<equiv> complex_of_real (f64_mul (f64_div 1 s) (f64_div 1 s))"
  shows "c128_mul (dv 0) (cnj (dv y)) = 0" and "c128_mul (dv x) (cnj (dv 0)) = 0"
    and "c128_mul (dv 1) (cnj (dv 1)) = p" and "c128_mul (dv (- 1)) (cnj (dv (- 1))) = p"
    and "c128_mul (dv 1) (cnj (dv 1)) + c128_mul (dv 1) (cnj (dv (- 1))) = 0"
    and "c128_mul (dv 1) (cnj (dv 1)) + c128_mul (dv (- 1)) (cnj (dv 1)) = 0"
  unfolding dv_def p_def
  by (simp_all add: c128_mul_def f64_ops fl64_minus complex_eq_iff)

lemma Y_entries:
  fixes s :: real
  defines "dv \<equiv> \<lambda>x. c128_div_f64 x s"
  defines "p \<equiv> complex_of_real (f64_mul (f64_div 1 s) (f64_div 1 s))"
  shows "c128_mul (dv 0) (cnj (dv y)) = 0" and "c128_mul (dv x) (cnj (dv 0)) = 0"
    and "c128_mul (dv 1) (cnj (dv 1)) = p" and "c128_mul (dv \<i>) (cnj (dv \<i>)) = p"
    and "c128_mul (dv (- \<i>)) (cnj (dv (- \<i>))) = p"
    and "c128_mul (dv 1) (cnj (dv \<i>)) + c128_mul (dv 1) (cnj (dv (- \<i>))) = 0"
    and "c128_mul (dv \<i>) (cnj (dv 1)) + c128_mul (dv (- \<i>)) (cnj (dv 1)) = 0"
  unfolding dv_def p_def
  by (simp_all add: c128_div_f64_def c128_mul_def f64_ops fl64_minus complex_eq_iff Let_def)

lemma X_elements:
  "elements (X d)
     = init_elements_from_vectors
         (map (map (\<lambda>x. complex_of_real (f64_div (Re x) (f64_sqrt (fl64 (real (2 * (d - 1))))))))
            (pair_rows 1 d))"
  by (simp add: X_def Let_def divide_rows_f64_def pair_loops_closed)

lemma Y_elements:
  "elements (Y d)
     = init_elements_from_vectors
         (map (map (\<lambda>x. c128_div_f64 x (f64_sqrt (fl64 (real (2 * (d - 1)))))))
            (pair_rows \<i> d))"
  by (simp add: Y_def Let_def divide_rows_c128_def pair_loops_closed)

lemma X_sum_at:
  fixes sc :: "complex \<Rightarrow> complex"
  assumes a: "a < d" and b: "b < d" and sc: "sc 0 = 0" "\<And>z. sc (- z) = - sc z"
  shows "sum_list (map (\<lambda>e. sc (e ! (a * d + b))) (elements (X d)))
           = (if a = b
              then 2 * sc (complex_of_real (f64_mul (pair_entry d) (pair_entry d))) * of_nat (d - 1)
              else 0)"
  unfolding X_elements pair_entry_def
  by (rule pair_elements_sum [OF a b X_entries(1) X_entries(2) X_entries(3) X_entries(3)
        X_entries(4) X_entries(5) X_entries(6) sc])

lemma Y_sum_at:
  fixes sc :: "complex \<Rightarrow> complex"
  assumes a: "a < d" and b: "b < d" and sc: "sc 0 = 0" "\<And>z. sc (- z) = - sc z"
  shows "sum_list (map (\<lambda>e. sc (e ! (a * d + b))) (elements (Y d)))
           = (if a = b
              then 2 * sc (complex_of_real (f64_mul (pair_entry d) (pair_entry d))) * of_nat (d - 1)
              else 0)"
  unfolding Y_elements pair_entry_def
  by (rule pair_elements_sum [OF a b Y_entries(1) Y_entries(2) Y_entries(3) Y_entries(4)
        Y_entries(5) Y_entries(6) Y_entries(7) sc])

lemma Z_loop_closed:
  "n \<le> d \<Longrightarrow>
     fold (\<lambda>i vs. setitem vs i i 1) [0..<n] (np_zeros d d)
       = map (\<lambda>i. (replicate d 0)[i := 1]) [0..<n] @ replicate (d - n) (replicate d 0)"
proof (induction n)
  case 0
  then show ?case by (simp add: np_zeros_def)
next
  case (Suc n)
  let ?A = "map (\<lambda>i. (replicate d (0::complex))[i := 1]) [0..<n]"
  have r: "replicate (d - n) (replicate d (0::complex))
            = replicate d 0 # replicate (d - Suc n) (replicate d 0)"
  proof -
    have "d - n = Suc (d - Suc n)" using Suc.prems by simp
    then show ?thesis by (metis replicate_Suc)
  qed
  have "fold (\<lambda>i vs. setitem vs i i 1) [0..<Suc n] (np_zeros d d)
          = setitem (?A @ replicate (d - n) (replicate d 0)) n n 1"
    using Suc by simp
  also have "\<dots> = ?A @ (replicate d 0)[n := 1] # replicate (d - Suc n) (replicate d 0)"
    unfolding r by (simp add: setitem_def nth_append list_update_append)
  finally show ?case by simp
qed

lemma Z_vectors: "vectors (Z d) = map (\<lambda>i. (replicate d 0)[i := 1]) [0..<d]"
  using Z_loop_closed [of d d] by (simp add: Z_def Let_def)

lemma c128_mul_units:
  "c128_mul 0 y = 0" "c128_mul x 0 = 0" "c128_mul 1 1 = 1"
  by (simp_all add: c128_mul_def f64_ops fl64_small complex_eq_iff)

lemma Z_sum_at:
  fixes sc :: "complex \<Rightarrow> complex"
  assumes a: "a < d" and b: "b < d" and sc: "sc 0 = 0"
  shows "sum_list (map (\<lambda>e. sc (e ! (a * d + b))) (elements (Z d))) = (if a = b then sc 1 else 0)"
proof -
  have el: "elements (Z d) = map outer_conj (map (\<lambda>i. (replicate d 0)[i := 1]) [0..<d])"
    using Z_vectors [of d] by (simp add: Z_def init_elements_from_vectors_def Let_def)
  have "sum_list (map (\<lambda>e. sc (e ! (a * d + b))) (elements (Z d)))
         = sum_list (map (\<lambda>i. if a = i \<and> b = i then sc 1 else 0) [0..<d])"
    unfolding el map_map
  proof (rule arg_cong [where f = sum_list], rule map_cong [OF refl])
    fix i assume "i \<in> set [0..<d]"
    let ?v = "(replicate d (0::complex))[i := 1]"
    have "outer_conj ?v ! (a * length ?v + b) = c128_mul (?v ! a) (cnj (?v ! b))"
      by (rule nth_outer_conj) (simp_all add: a b)
    then show "((\<lambda>e. sc (e ! (a * d + b))) \<circ> (outer_conj \<circ> (\<lambda>i. (replicate d 0)[i := 1]))) i
                = (if a = i \<and> b = i then sc 1 else 0)"
      using a b by (auto simp: nth_list_update c128_mul_units sc)
  qed
  also have "\<dots> = (\<Sum>i \<in> {0..<d}. if a = i \<and> b = i then sc 1 else 0)"
    by (simp add: interv_sum_list_conv_sum_set_nat)
  also have "\<dots> = (\<Sum>i \<in> {0..<d}. if a = i then (if a = b then sc 1 else 0) else 0)"
    by (rule sum.cong) auto
  also have "\<dots> = (if a = b then sc 1 else 0)"
    using a by simp
  finally show ?thesis .
qed

lemma length_outer_conj: "length (outer_conj v) = length v * length v"
  by (simp add: outer_conj_def length_concat comp_def sum_list_triv)

lemma X_elements_length: "e \<in> set (elements (X d)) \<Longrightarrow> length e = d * d"
  unfolding X_elements
  by (auto simp: init_elements_from_vectors_def length_outer_conj pair_rows_length)

lemma Y_elements_length: "e \<in> set (elements (Y d)) \<Longrightarrow> length e = d * d"
  unfolding Y_elements
  by (auto simp: init_elements_from_vectors_def length_outer_conj pair_rows_length)

lemma Z_elements_length: "e \<in> set (elements (Z d)) \<Longrightarrow> length e = d * d"
  using Z_vectors [of d]
  by (auto simp: Z_def Let_def init_elements_from_vectors_def length_outer_conj)

lemma XYZ_count:
  "length (elements (X d)) = d * (d - 1)" "length (elements (Y d)) = d * (d - 1)"
  "length (elements (Z d)) = d"
  using Z_vectors [of d]
  by (simp_all add: X_elements Y_elements Z_def Let_def init_elements_from_vectors_def
        length_pair_rows)

lemma times_rows_sum:
  assumes "\<forall>e \<in> set els. idx < length e"
  shows "sum_list (map (\<lambda>e. e ! idx) (times_rows els w))
           = sum_list (map (\<lambda>e. c128_mul (e ! idx) (complex_of_real w)) els)"
  using assms by (induction els) (auto simp: times_rows_def)

lemma length_np_eye: "length (dat (np_eye d)) = d * d"
  by (simp add: np_eye_def length_concat comp_def sum_list_triv)

lemma elements_sum_scaledI:
  assumes "\<And>a b. a < d \<Longrightarrow> b < d \<Longrightarrow>
              sum_list (map (\<lambda>e. e ! (a * d + b)) els) = (if a = b then complex_of_real x else 0)"
  shows "elements_sum d els = scaled_eye d x"
proof (rule nth_equalityI)
  show "length (elements_sum d els) = length (scaled_eye d x)"
    by (simp add: elements_sum_def scaled_eye_def length_np_eye)
next
  fix idx assume "idx < length (elements_sum d els)"
  then have idx: "idx < d * d" by (simp add: elements_sum_def)
  then have dpos: "0 < d" by (cases d) auto
  have a: "idx div d < d" using idx dpos by (simp add: less_mult_imp_div_less mult.commute)
  have b: "idx mod d < d" using dpos by simp
  have "elements_sum d els ! idx = sum_list (map (\<lambda>e. e ! idx) els)"
    using idx by (simp add: elements_sum_def)
  also have "\<dots> = sum_list (map (\<lambda>e. e ! (idx div d * d + idx mod d)) els)"
    by simp
  also have "\<dots> = (if idx div d = idx mod d then complex_of_real x else 0)"
    by (rule assms [OF a b])
  also have "\<dots> = dat (np_eye d) ! (idx div d * d + idx mod d) * complex_of_real x"
    unfolding nth_np_eye [OF a b] by simp
  also have "\<dots> = scaled_eye d x ! idx"
    using idx by (simp add: scaled_eye_def length_np_eye)
  finally show "elements_sum d els ! idx = scaled_eye d x ! idx" .
qed

lemma scaled_eye_1: "scaled_eye d 1 = dat (np_eye d)"
  by (simp add: scaled_eye_def)

text \<open>The rounded entries for \<open>d = 2\<close>.\<close>

lemma pair_entry_2: "pair_entry 2 = 6369051672525772 / 2 ^ 53"
proof -
  have a: "fl64 (real (2 * (2 - 1))) = 2" by (simp add: fl64_small)
  have b: "fl64 (sqrt 2) = 6369051672525773 / 2 ^ 52"
    using fl64_sqrtI [of 6369051672525773 "- 52" 2] by (simp add: pow2_def power2_eq_square)
  have c: "fl64 (1 / (6369051672525773 / 2 ^ 52)) = 6369051672525772 / 2 ^ 53"
    using fl64_posI [of 6369051672525772 "- 53" "1 / (6369051672525773 / 2 ^ 52)"]
    by (simp add: pow2_def)
  show ?thesis unfolding pair_entry_def f64_div_def f64_sqrt_def a b c ..
qed

lemma pair_square_2: "f64_mul (pair_entry 2) (pair_entry 2) = 9007199254740990 / 2 ^ 54"
  unfolding pair_entry_2 f64_mul_def
  using fl64_posI [of 9007199254740990 "- 54"
          "6369051672525772 / 2 ^ 53 * (6369051672525772 / 2 ^ 53)"]
  by (simp add: pow2_def)

lemma f64_third: "f64_div 1 3 = 6004799503160661 / 2 ^ 54"
  unfolding f64_div_def
  using fl64_posI [of 6004799503160661 "- 54" "1 / 3"] by (simp add: pow2_def)

lemma pair_square_third_2:
  "f64_mul (f64_mul (pair_entry 2) (pair_entry 2)) (f64_div 1 3) = 6004799503160660 / 2 ^ 55"
  unfolding pair_square_2 f64_third
  unfolding f64_mul_def
  using fl64_posI [of 6004799503160660 "- 55"
          "9007199254740990 / 2 ^ 54 * (6004799503160661 / 2 ^ 54)"]
  by (simp add: pow2_def)

lemma pair_diag_2: "pair_diag 2 = 9007199254740990 / 2 ^ 53"
  unfolding pair_diag_def pair_square_2 by simp

lemma combined_diag_2: "combined_diag 2 = 18014398509481981 / 2 ^ 54"
  unfolding combined_diag_def if_P [OF refl]
  unfolding pair_square_third_2
  unfolding f64_third by simp

lemma pair_diag_bound:
  assumes "2 \<le> d" and "d \<le> 2 ^ 52"
  shows "\<bar>pair_diag d - 1\<bar> \<le> 1 / 2 ^ 50"
    and "pow2 (- 1021) \<le> f64_mul (pair_entry d) (pair_entry d)"
proof -
  have n1: "1 \<le> 2 * (d - 1)" using assms(1) by simp
  have "2 * (d - 1) < 2 * 2 ^ 52" using assms by simp
  then have n2: "2 * (d - 1) < 2 ^ 53" by simp
  from pair_weight_bound [OF n1 n2]
  show "\<bar>pair_diag d - 1\<bar> \<le> 1 / 2 ^ 50"
    and "pow2 (- 1021) \<le> f64_mul (pair_entry d) (pair_entry d)"
    unfolding pair_diag_def pair_entry_def by simp_all
qed

lemma combined_diag_bound:
  assumes "2 \<le> d" and "d \<le> 2 ^ 52"
  shows "\<bar>combined_diag d - 1\<bar> \<le> 1 / 2 ^ 50"
proof (cases "d = 2")
  case True
  show ?thesis unfolding True combined_diag_2 by simp
next
  case False
  then show ?thesis using pair_diag_bound(1) [OF assms] by (simp add: combined_diag_def)
qed

lemma PauliGen_sum_at:
  assumes a: "a < d" and b: "b < d" and d: "2 \<le> d" and d': "d \<le> 2 ^ 52"
  shows "sum_list (map (\<lambda>e. e ! (a * d + b)) (elements (PauliGen d)))
           = (if a = b then complex_of_real (combined_diag d) else 0)"
proof -
  let ?P = "f64_mul (pair_entry d) (pair_entry d)"
  have idx: "a * d + b < d * d"
  proof -
    have "a * d + b < a * d + d" using b by simp
    also have "\<dots> = (a + 1) * d" by simp
    also have "\<dots> \<le> d * d"
    proof -
      from a have "a + 1 \<le> d" by simp
      then show ?thesis by (rule mult_le_mono1)
    qed
    finally show ?thesis .
  qed
  have x: "\<forall>e \<in> set (elements (X d)). a * d + b < length e"
    using idx X_elements_length [of _ d] by metis
  have y: "\<forall>e \<in> set (elements (Y d)). a * d + b < length e"
    using idx Y_elements_length [of _ d] by metis
  have z: "\<forall>e \<in> set (elements (Z d)). a * d + b < length e"
    using idx Z_elements_length [of _ d] by metis
  have sX: "sum_list (map (\<lambda>e. e ! (a * d + b)) (times_rows (elements (X d)) w))
             = (if a = b then 2 * complex_of_real (f64_mul ?P w) * of_nat (d - 1) else 0)" for w
    unfolding times_rows_sum [OF x]
    using X_sum_at [where sc = "\<lambda>z. c128_mul z (complex_of_real w)", OF a b c128_scale_facts]
    by (simp add: c128_mul_of_real)
  have sY: "sum_list (map (\<lambda>e. e ! (a * d + b)) (times_rows (elements (Y d)) w))
             = (if a = b then 2 * complex_of_real (f64_mul ?P w) * of_nat (d - 1) else 0)" for w
    unfolding times_rows_sum [OF y]
    using Y_sum_at [where sc = "\<lambda>z. c128_mul z (complex_of_real w)", OF a b c128_scale_facts]
    by (simp add: c128_mul_of_real)
  have sZ: "sum_list (map (\<lambda>e. e ! (a * d + b)) (times_rows (elements (Z d)) w))
             = (if a = b then complex_of_real (fl64 w) else 0)" for w
    unfolding times_rows_sum [OF z]
    using Z_sum_at [where sc = "\<lambda>z. c128_mul z (complex_of_real w)", OF a b c128_scale_facts(1)]
    by (simp add: c128_mul_real_right f64_mul_def complex_eq_iff)
  show ?thesis
  proof (cases "d = 2")
    case True
    have "elements (PauliGen d)
            = times_rows (elements (X d)) (f64_div 1 3) @ times_rows (elements (Y d)) (f64_div 1 3)
              @ times_rows (elements (Z d)) (f64_div 1 3)"
      unfolding PauliGen_def init_combined_def if_P [OF True] by simp
    then have "sum_list (map (\<lambda>e. e ! (a * d + b)) (elements (PauliGen d)))
                = (if a = b then 2 * complex_of_real (f64_mul ?P (f64_div 1 3)) * of_nat (d - 1) else 0)
                  + ((if a = b then 2 * complex_of_real (f64_mul ?P (f64_div 1 3)) * of_nat (d - 1) else 0)
                  + (if a = b then complex_of_real (fl64 (f64_div 1 3)) else 0))"
      by (simp only: map_append sum_list_append sX sY sZ)
    then show ?thesis
      unfolding True by (simp add: combined_diag_def f64_div_def)
  next
    case False
    have h: "f64_mul ?P (1 / 2) = ?P / 2"
    proof -
      have "pow2 (- 1021) \<le> \<bar>fl64 (pair_entry d * pair_entry d)\<bar>"
        using pair_diag_bound(2) [OF d d'] by (simp add: f64_mul_def)
      from fl64_half [OF this] show ?thesis by (simp add: f64_mul_def)
    qed
    have "elements (PauliGen d)
            = times_rows (elements (X d)) (1 / 2) @ times_rows (elements (Y d)) (1 / 2)"
      unfolding PauliGen_def init_combined_def if_not_P [OF False] by simp
    then have "sum_list (map (\<lambda>e. e ! (a * d + b)) (elements (PauliGen d)))
                = (if a = b then 2 * complex_of_real (f64_mul ?P (1 / 2)) * of_nat (d - 1) else 0)
                  + (if a = b then 2 * complex_of_real (f64_mul ?P (1 / 2)) * of_nat (d - 1) else 0)"
      by (simp only: map_append sum_list_append sX sY)
    then show ?thesis
      unfolding h using False by (simp add: combined_diag_def pair_diag_def)
  qed
qed

lemma PauliGen_count:
  "length (elements (PauliGen d)) = (if d = 2 then 6 else 2 * (d * (d - 1)))"
  by (simp add: PauliGen_def init_combined_def times_rows_def XYZ_count)

lemma id_scale_facts: "id (0::complex) = 0" "id (- z) = - id (z::complex)"
  by simp_all

text \<open>
  C5 (as amended). For every local dimension \<open>d\<close> from 2 to \<open>2\<^sup>5\<^sup>2\<close> (so that
  \<open>2 (d - 1)\<close> is a binary64 number): the elements of Z sum to the identity matrix;
  the elements of X and those of Y sum to \<open>pair_diag d\<close> times the identity, and
  the elements of PauliGen (X, Y and Z with the rounded weight \<^verbatim>\<open>1/3.\<close> for \<open>d = 2\<close>;
  X and Y with the weight \<^verbatim>\<open>0.5\<close> for \<open>d > 2\<close>) to \<open>combined_diag d\<close> times the
  identity; both factors differ from 1 by at most \<open>1 / 2 ^ 50\<close>. X and Y have
  \<open>d (d - 1)\<close> elements each, Z has \<open>d\<close>, and PauliGen has those of its members.
\<close>

theorem local_povm_elements_sum_near_identity:
  assumes "2 \<le> d" and "d \<le> 2 ^ 52"
  shows "elements_sum d (elements (X d)) = scaled_eye d (pair_diag d)
       \<and> elements_sum d (elements (Y d)) = scaled_eye d (pair_diag d)
       \<and> elements_sum d (elements (Z d)) = dat (np_eye d)
       \<and> elements_sum d (elements (PauliGen d)) = scaled_eye d (combined_diag d)
       \<and> \<bar>pair_diag d - 1\<bar> \<le> 1 / 2 ^ 50
       \<and> \<bar>combined_diag d - 1\<bar> \<le> 1 / 2 ^ 50
       \<and> length (elements (X d)) = d * (d - 1)
       \<and> length (elements (Y d)) = d * (d - 1)
       \<and> length (elements (Z d)) = d
       \<and> length (elements (PauliGen d)) = (if d = 2 then 6 else 2 * (d * (d - 1)))"
proof (intro conjI)
  have r: "2 * complex_of_real x * of_nat (d - 1) = complex_of_real (real (2 * (d - 1)) * x)" for x
    by simp
  show "elements_sum d (elements (X d)) = scaled_eye d (pair_diag d)"
  proof (rule elements_sum_scaledI)
    fix a b assume a: "a < d" and b: "b < d"
    from X_sum_at [where sc = id, OF a b id_scale_facts]
    show "sum_list (map (\<lambda>e. e ! (a * d + b)) (elements (X d)))
            = (if a = b then complex_of_real (pair_diag d) else 0)"
      unfolding pair_diag_def r [symmetric] by simp
  qed
  show "elements_sum d (elements (Y d)) = scaled_eye d (pair_diag d)"
  proof (rule elements_sum_scaledI)
    fix a b assume a: "a < d" and b: "b < d"
    from Y_sum_at [where sc = id, OF a b id_scale_facts]
    show "sum_list (map (\<lambda>e. e ! (a * d + b)) (elements (Y d)))
            = (if a = b then complex_of_real (pair_diag d) else 0)"
      unfolding pair_diag_def r [symmetric] by simp
  qed
  show "elements_sum d (elements (Z d)) = dat (np_eye d)"
  proof -
    have "elements_sum d (elements (Z d)) = scaled_eye d 1"
    proof (rule elements_sum_scaledI)
      fix a b assume a: "a < d" and b: "b < d"
      from Z_sum_at [where sc = id, OF a b id_scale_facts(1)]
      show "sum_list (map (\<lambda>e. e ! (a * d + b)) (elements (Z d)))
              = (if a = b then complex_of_real 1 else 0)"
        by simp
    qed
    then show ?thesis by (simp only: scaled_eye_1)
  qed
  show "elements_sum d (elements (PauliGen d)) = scaled_eye d (combined_diag d)"
    by (rule elements_sum_scaledI) (rule PauliGen_sum_at [OF _ _ assms])
  show "\<bar>pair_diag d - 1\<bar> \<le> 1 / 2 ^ 50" by (rule pair_diag_bound(1) [OF assms])
  show "\<bar>combined_diag d - 1\<bar> \<le> 1 / 2 ^ 50" by (rule combined_diag_bound [OF assms])
  show "length (elements (X d)) = d * (d - 1)" by (rule XYZ_count)
  show "length (elements (Y d)) = d * (d - 1)" by (rule XYZ_count)
  show "length (elements (Z d)) = d" by (rule XYZ_count)
  show "length (elements (PauliGen d)) = (if d = 2 then 6 else 2 * (d * (d - 1)))"
    by (rule PauliGen_count)
qed

lemma scaled_eye_2: "scaled_eye 2 x = [complex_of_real x, 0, 0, complex_of_real x]"
  by (simp add: scaled_eye_def np_eye_def numeral_2_eq_2)

text \<open>For \<open>d = 2\<close> the sums are \<open>1 - 2\<^sup>-\<^sup>5\<^sup>2\<close> times the identity for X and Y, and
  \<open>1 - 3 / 2\<^sup>5\<^sup>4\<close> times the identity for PauliGen.\<close>

theorem local_povm_elements_sum_near_identity_witness:
  "(2::nat) \<le> 2 \<and> (2::nat) \<le> 2 ^ 52
   \<and> elements_sum 2 (elements (X 2)) = [9007199254740990 / 2 ^ 53, 0, 0, 9007199254740990 / 2 ^ 53]
   \<and> elements_sum 2 (elements (Y 2)) = [9007199254740990 / 2 ^ 53, 0, 0, 9007199254740990 / 2 ^ 53]
   \<and> elements_sum 2 (elements (Z 2)) = [1, 0, 0, 1]
   \<and> elements_sum 2 (elements (PauliGen 2))
       = [18014398509481981 / 2 ^ 54, 0, 0, 18014398509481981 / 2 ^ 54]
   \<and> \<bar>(9007199254740990 / 2 ^ 53 :: real) - 1\<bar> \<le> 1 / 2 ^ 50
   \<and> \<bar>(18014398509481981 / 2 ^ 54 :: real) - 1\<bar> \<le> 1 / 2 ^ 50
   \<and> length (elements (X 2)) = 2 \<and> length (elements (Y 2)) = 2
   \<and> length (elements (Z 2)) = 2 \<and> length (elements (PauliGen 2)) = 6"
proof -
  have h: "(2::nat) \<le> 2" "(2::nat) \<le> 2 ^ 52" by simp_all
  have i: "dat (np_eye 2) = [1, 0, 0, 1]" by (simp add: np_eye_def numeral_2_eq_2)
  have p: "scaled_eye 2 (pair_diag 2) = [9007199254740990 / 2 ^ 53, 0, 0, 9007199254740990 / 2 ^ 53]"
    unfolding scaled_eye_2 pair_diag_2 by simp
  have c: "scaled_eye 2 (combined_diag 2)
             = [18014398509481981 / 2 ^ 54, 0, 0, 18014398509481981 / 2 ^ 54]"
    unfolding scaled_eye_2 combined_diag_2 by simp
  from local_povm_elements_sum_near_identity [OF h]
  show ?thesis unfolding i p c by (simp add: pair_diag_2 combined_diag_2)
qed

text \<open>
  C5 (as stated) fails in binary64 already for \<open>d = 2\<close>: the vectors of X have the
  entries \<open>0.7071067811865475\<close>, whose rounded square is \<open>0.4999999999999999\<close>, so the
  two elements of X sum to \<open>0.9999999999999998\<close> on the diagonal, not to 1; the six
  elements of PauliGen sum to \<open>1 - 3 / 2\<^sup>5\<^sup>4\<close> there.
\<close>

theorem local_povm_elements_sum_counterexample:
  "elements_sum 2 (elements (X 2)) = [9007199254740990 / 2 ^ 53, 0, 0, 9007199254740990 / 2 ^ 53]
   \<and> elements_sum 2 (elements (X 2)) \<noteq> dat (np_eye 2)
   \<and> elements_sum 2 (elements (PauliGen 2))
       = [18014398509481981 / 2 ^ 54, 0, 0, 18014398509481981 / 2 ^ 54]
   \<and> elements_sum 2 (elements (PauliGen 2)) \<noteq> dat (np_eye 2)"
proof -
  have i: "dat (np_eye 2) = [1, 0, 0, 1]" by (simp add: np_eye_def numeral_2_eq_2)
  have r: "2 * complex_of_real x * of_nat (2 - 1) = complex_of_real (2 * x)" for x
    by simp
  have "elements_sum 2 (elements (X 2)) = scaled_eye 2 (pair_diag 2)"
  proof (rule elements_sum_scaledI)
    fix a b :: nat assume a: "a < 2" and b: "b < 2"
    from X_sum_at [where sc = id, OF a b id_scale_facts]
    show "sum_list (map (\<lambda>e. e ! (a * 2 + b)) (elements (X 2)))
            = (if a = b then complex_of_real (pair_diag 2) else 0)"
      unfolding pair_diag_def by simp
  qed
  then have x: "elements_sum 2 (elements (X 2))
                  = [9007199254740990 / 2 ^ 53, 0, 0, 9007199254740990 / 2 ^ 53]"
    unfolding scaled_eye_2 pair_diag_2 by simp
  have "elements_sum 2 (elements (PauliGen 2)) = scaled_eye 2 (combined_diag 2)"
    by (rule elements_sum_scaledI) (rule PauliGen_sum_at, simp_all)
  then have g: "elements_sum 2 (elements (PauliGen 2))
                  = [18014398509481981 / 2 ^ 54, 0, 0, 18014398509481981 / 2 ^ 54]"
    unfolding scaled_eye_2 combined_diag_2 by simp
  show ?thesis unfolding x g i by simp
qed

lemma elements_from_vectors_nth:
  "k < length vecs \<Longrightarrow> outer_conj (vecs ! k) = init_elements_from_vectors vecs ! k"
  by (simp add: init_elements_from_vectors_def)

lemma XYZ_rank_one_form:
  "k < length (vectors (X d)) \<Longrightarrow> outer_conj (vectors (X d) ! k) = elements (X d) ! k"
  "k < length (vectors (Y d)) \<Longrightarrow> outer_conj (vectors (Y d) ! k) = elements (Y d) ! k"
  "k < length (vectors (Z d)) \<Longrightarrow> outer_conj (vectors (Z d) ! k) = elements (Z d) ! k"
  by (simp_all add: X_def Y_def Z_def Let_def init_elements_from_vectors_def)

lemma pair_rows_2: "pair_rows c 2 = [[1, c], [1, - c]]"
  by (simp add: pair_rows_def rowp_def numeral_2_eq_2)

lemma X_2_vectors:
  "vectors (X 2) = [[complex_of_real (pair_entry 2), complex_of_real (pair_entry 2)],
                    [complex_of_real (pair_entry 2), - complex_of_real (pair_entry 2)]]"
  by (simp add: X_def Let_def pair_loops_closed pair_rows_2 divide_rows_f64_def pair_entry_def
        f64_div_def fl64_minus)

lemma pair_third_2: "f64_mul (pair_entry 2) (f64_div 1 3) = 8492068896701029 / 2 ^ 55"
  unfolding pair_entry_2 f64_third
  unfolding f64_mul_def
  using fl64_posI [of 8492068896701029 "- 55"
          "6369051672525772 / 2 ^ 53 * (6004799503160661 / 2 ^ 54)"]
  by (simp add: pow2_def)

lemma pair_third_square_2:
  "f64_mul (f64_mul (pair_entry 2) (f64_div 1 3)) (f64_mul (pair_entry 2) (f64_div 1 3))
     = 8006399337547546 / 2 ^ 57"
  unfolding pair_third_2
  unfolding f64_mul_def
  using fl64_posI [of 8006399337547546 "- 57"
          "8492068896701029 / 2 ^ 55 * (8492068896701029 / 2 ^ 55)"]
  by (simp add: pow2_def)

text \<open>
  C6. The self-outer-product of \<open>vectors[k]\<close> is to be \<open>elements[k]\<close>. X, Y and Z
  build their elements that way (\<open>XYZ_rank_one_form\<close>). The combination multiplies
  the vectors and the elements by the same weight, so the outer product of a vector
  carries the square of the weight: for PauliGen on a qubit and \<open>k = 0\<close> it is
  \<open>0.05555555555555554\<close> in every entry (one eighteenth, up to rounding), where the
  element is \<open>0.16666666666666663\<close> (one sixth, up to rounding).
\<close>

theorem PauliGen_vectors_lose_rank_one_form:
  "outer_conj (vectors (PauliGen 2) ! 0)
     = [8006399337547546 / 2 ^ 57, 8006399337547546 / 2 ^ 57,
        8006399337547546 / 2 ^ 57, 8006399337547546 / 2 ^ 57]
   \<and> elements (PauliGen 2) ! 0
     = [6004799503160660 / 2 ^ 55, 6004799503160660 / 2 ^ 55,
        6004799503160660 / 2 ^ 55, 6004799503160660 / 2 ^ 55]
   \<and> outer_conj (vectors (PauliGen 2) ! 0) \<noteq> elements (PauliGen 2) ! 0
   \<and> \<bar>(8006399337547546 / 2 ^ 57 :: real) - 1 / 18\<bar> \<le> 1 / 10 ^ 16
   \<and> \<bar>(6004799503160660 / 2 ^ 55 :: real) - 1 / 6\<bar> \<le> 1 / 10 ^ 16"
proof -
  let ?k = "pair_entry 2" and ?w = "f64_div 1 3"
  have v: "vectors (PauliGen 2) ! 0
            = [complex_of_real (f64_mul ?k ?w), complex_of_real (f64_mul ?k ?w)]"
    by (simp add: PauliGen_def init_combined_def X_2_vectors times_rows_def nth_append
          c128_mul_of_real)
  have o: "outer_conj (vectors (PauliGen 2) ! 0)
            = [complex_of_real (f64_mul (f64_mul ?k ?w) (f64_mul ?k ?w)),
               complex_of_real (f64_mul (f64_mul ?k ?w) (f64_mul ?k ?w)),
               complex_of_real (f64_mul (f64_mul ?k ?w) (f64_mul ?k ?w)),
               complex_of_real (f64_mul (f64_mul ?k ?w) (f64_mul ?k ?w))]"
    unfolding v outer_conj_def by (simp add: c128_mul_of_real)
  have x: "elements (X 2) ! 0
            = [complex_of_real (f64_mul ?k ?k), complex_of_real (f64_mul ?k ?k),
               complex_of_real (f64_mul ?k ?k), complex_of_real (f64_mul ?k ?k)]"
    using XYZ_rank_one_form(1) [of 0 2]
    by (simp add: X_2_vectors outer_conj_def c128_mul_of_real)
  have "elements (PauliGen 2) ! 0 = map (\<lambda>x. c128_mul x (complex_of_real ?w)) (elements (X 2) ! 0)"
    using XYZ_count(1) [of 2]
    by (simp add: PauliGen_def init_combined_def times_rows_def nth_append)
  then have e: "elements (PauliGen 2) ! 0
            = [complex_of_real (f64_mul (f64_mul ?k ?k) ?w),
               complex_of_real (f64_mul (f64_mul ?k ?k) ?w),
               complex_of_real (f64_mul (f64_mul ?k ?k) ?w),
               complex_of_real (f64_mul (f64_mul ?k ?k) ?w)]"
    unfolding x by (simp add: c128_mul_of_real)
  show ?thesis unfolding o e pair_third_square_2 pair_square_third_2 by simp
qed

subsection \<open>Conditional sampling\<close>

























lemma upt_2: "[0..<2] = [0, 1]" by (simp add: numeral_2_eq_2)




subsection \<open>Matching elements of two POVMs\<close>

lemma length_scatter: "length (scatter ks idx) = length ks"
  by (induction ks arbitrary: idx) auto

lemma all_indices_valid: "valid_index dims idx \<Longrightarrow> idx \<in> set (all_indices dims)"
proof (induction dims arbitrary: idx)
  case Nil
  then show ?case by (simp add: valid_index_def)
next
  case (Cons n ns)
  from Cons.prems have "length idx = Suc (length ns)" by (simp add: valid_index_def)
  then obtain x rest where idx: "idx = x # rest" by (cases idx) auto
  from Cons.prems idx have x: "x < n" by (auto simp: valid_index_def)
  have "valid_index ns rest"
    unfolding valid_index_def
  proof (intro conjI allI impI)
    show "length rest = length ns" using Cons.prems idx by (simp add: valid_index_def)
  next
    fix i assume "i < length ns"
    then have "Suc i < length (n # ns)" by simp
    with Cons.prems have "idx ! Suc i < (n # ns) ! Suc i" unfolding valid_index_def by blast
    then show "rest ! i < ns ! i" using idx by simp
  qed
  from Cons.IH [OF this] x idx show ?case by auto
qed

text \<open>The shape assertion of line 321: it holds exactly when \<^verbatim>\<open>other\<close> has more
  than one outcome wherever \<^verbatim>\<open>self\<close> has.\<close>

lemma inner_first_half:
  fixes ps qs :: "nat list"
  assumes "length ps = length qs"
  shows "map fst (filter (\<lambda>(so, oo). so * oo \<noteq> 1)
            (zip ps (map (\<lambda>(keep, outdim). if keep then outdim else 1)
                       (zip (map (\<lambda>outdim. outdim > 1) ps) qs))))
         = filter (\<lambda>od. od \<noteq> 1) ps"
  using assms
proof (induction ps qs rule: list_induct2)
  case Nil
  then show ?case by simp
next
  case (Cons p ps q qs)
  have "p * (if p > 1 then q else 1) \<noteq> 1 \<longleftrightarrow> p \<noteq> 1" by (cases "p > 1") auto
  with Cons.IH show ?case by simp
qed

lemma inner_second_half:
  fixes ps qs :: "nat list"
  assumes "length ps = length qs"
  shows "filter (\<lambda>od. od \<noteq> 1)
           (map snd (filter (\<lambda>(so, oo). so * oo \<noteq> 1)
              (zip ps (map (\<lambda>(keep, outdim). if keep then outdim else 1)
                         (zip (map (\<lambda>outdim. outdim > 1) ps) qs)))))
         = filter (\<lambda>od. od \<noteq> 1)
             (map (\<lambda>(keep, outdim). if keep then outdim else 1)
                (zip (map (\<lambda>outdim. outdim > 1) ps) qs))"
  using assms
proof (induction ps qs rule: list_induct2)
  case Nil
  then show ?case by simp
next
  case (Cons p ps q qs)
  then show ?case by (cases "p > 1") auto
qed

lemma shape_assertion_support:
  fixes ps qs :: "nat list"
  assumes len: "length ps = length qs"
    and shp: "map fst (filter (\<lambda>(so, oo). so * oo \<noteq> 1)
                (zip ps (map (\<lambda>(keep, outdim). if keep then outdim else 1)
                           (zip (map (\<lambda>outdim. outdim > 1) ps) qs))))
              @ map snd (filter (\<lambda>(so, oo). so * oo \<noteq> 1)
                (zip ps (map (\<lambda>(keep, outdim). if keep then outdim else 1)
                           (zip (map (\<lambda>outdim. outdim > 1) ps) qs))))
              = filter (\<lambda>od. od \<noteq> 1) ps
                @ filter (\<lambda>od. od \<noteq> 1)
                    (map (\<lambda>(keep, outdim). if keep then outdim else 1)
                       (zip (map (\<lambda>outdim. outdim > 1) ps) qs))"
  shows "\<forall>(p, q) \<in> set (zip ps qs). p \<noteq> 1 \<longrightarrow> 1 < p \<and> q \<noteq> 1"
proof -
  let ?q' = "map (\<lambda>(keep, outdim). if keep then outdim else 1)
               (zip (map (\<lambda>outdim. outdim > 1) ps) qs)"
  let ?xs = "map snd (filter (\<lambda>(so, oo). so * oo \<noteq> 1) (zip ps ?q'))"
  from shp have "?xs = filter (\<lambda>od. od \<noteq> 1) ?q'"
    unfolding inner_first_half [OF len] by simp
  also have "\<dots> = filter (\<lambda>od. od \<noteq> 1) ?xs"
    by (rule inner_second_half [OF len, symmetric])
  finally have "filter (\<lambda>od. od \<noteq> 1) ?xs = ?xs" by simp
  then have all: "\<forall>x \<in> set ?xs. x \<noteq> 1" by (simp add: filter_id_conv)
  show ?thesis
    using len all
  proof (induction ps qs rule: list_induct2)
    case Nil
    then show ?case by simp
  next
    case (Cons p ps q qs)
    have step: "p \<noteq> 1 \<longrightarrow> 1 < p \<and> q \<noteq> 1"
    proof
      assume p: "p \<noteq> 1"
      then have "p * (if p > 1 then q else 1) \<noteq> 1" by (cases "p > 1") auto
      with Cons.prems have "(if p > 1 then q else 1) \<noteq> 1" by simp
      then show "1 < p \<and> q \<noteq> 1" by (cases "p > 1") auto
    qed
    have "\<forall>x \<in> set (map snd (filter (\<lambda>(so, oo). so * oo \<noteq> 1)
             (zip ps (map (\<lambda>(keep, outdim). if keep then outdim else 1)
                        (zip (map (\<lambda>outdim. outdim > 1) ps) qs))))). x \<noteq> 1"
      using Cons.prems by (auto split: if_splits)
    from Cons.IH [OF this] step show ?case by simp
  qed
qed

lemma drop_outcomes_outdims_id:
  fixes ps qs :: "nat list"
  assumes "length ps = length qs"
    and "\<forall>(p, q) \<in> set (zip ps qs). \<not> 1 < p \<longrightarrow> q = 1"
  shows "map (\<lambda>(keep, outdim). if keep then outdim else 1)
           (zip (map (\<lambda>outdim. outdim > 1) ps) qs) = qs"
  using assms by (induction ps qs rule: list_induct2) auto

lemma expand_unprune_id:
  fixes ps qs :: "nat list"
  assumes "length ps = length qs"
    and "\<forall>(p, q) \<in> set (zip ps qs). \<not> 1 < p \<longrightarrow> q = 1"
  shows "expand (map (\<lambda>outdim. outdim > 1) ps) qs (unprune qs j) = [unprune qs j]"
  using assms
proof (induction ps qs arbitrary: j rule: list_induct2)
  case Nil
  then show ?case by (simp add: unprune_def)
next
  case (Cons p ps q qs)
  have ih: "expand (map (\<lambda>outdim. outdim > 1) ps) qs (unprune qs j') = [unprune qs j']" for j'
    using Cons.IH Cons.prems by simp
  show ?case
  proof (cases "q = 1")
    case True
    then have "unprune (q # qs) j = 0 # unprune qs j" by (simp add: unprune_def)
    then show ?thesis using True ih [of j] by simp
  next
    case False
    with Cons.prems have p: "1 < p" by auto
    have "unprune (q # qs) j = (case j of [] \<Rightarrow> 0 | x # _ \<Rightarrow> x) # unprune qs (tl j)"
      using False by (simp add: unprune_def)
    then show ?thesis using p ih [of "tl j"] by simp
  qed
qed

lemma normsq_drop_outcomes_id:
  assumes "length (d_outdims P) = length (d_outdims Q)"
    and "\<forall>(p, q) \<in> set (zip (d_outdims P) (d_outdims Q)). \<not> 1 < p \<longrightarrow> q = 1"
  shows "normsq (drop_outcomes P Q) = normsq Q"
proof -
  let ?Q' = "drop_outcomes P Q"
  have od: "d_outdims ?Q' = d_outdims Q"
    using drop_outcomes_outdims_id [OF assms] by (simp add: drop_outcomes_def Let_def)
  have hd: "d_hdims ?Q' = d_hdims Q" by (simp add: drop_outcomes_def Let_def)
  have el: "d_elem ?Q' (unprune (d_outdims Q) idx) a b = d_elem Q (unprune (d_outdims Q) idx) a b"
    for idx a b
    using expand_unprune_id [OF assms, of idx] by (simp add: drop_outcomes_def Let_def)
  have "elem_inner ?Q' ?Q' (unprune (d_outdims Q) idx) (unprune (d_outdims Q) idx)
          = elem_inner Q Q (unprune (d_outdims Q) idx) (unprune (d_outdims Q) idx)" for idx
    unfolding elem_inner_def hd el ..
  then show ?thesis
    unfolding normsq_def od by simp
qed

lemma find_matching_dense_success:
  assumes "find_matching_dense P Q [] eps = Inr (m, f)"
  shows "d_hdims P = d_hdims Q"
    and "nd_all \<lparr>nshape = nshape (normsq P), nentry = (\<lambda>i. nentry (normsq P) i > 0)\<rparr>"
    and "nd_all \<lparr>nshape = nshape (normsq (drop_outcomes P Q)),
                 nentry = (\<lambda>j. nentry (normsq (drop_outcomes P Q)) j > 0)\<rparr>"
    and "nshape (inner_sq P (drop_outcomes P Q))
           = nshape (normsq P) @ nshape (normsq (drop_outcomes P Q))"
    and "nentry f idx = Some x \<Longrightarrow>
           x = f64_sqrt (f64_div (nentry (normsq P) (take (length (nshape (normsq P))) idx))
                                 (nentry (normsq (drop_outcomes P Q))
                                    (drop (length (nshape (normsq P))) idx)))"
  using assms
  by (auto simp: find_matching_dense_def Let_def split: if_splits)

lemma nsoutdims_filter: "nsoutdims P = filter (\<lambda>od. od > 1) (outdims P)"
  by (simp add: nsoutdims_def outdims_def filter_map comp_def)

lemma success_supports:
  assumes PQ: "find_matching_dense P Q [] eps = Inr (m, f)"
    and len: "length (d_outdims P) = length (d_outdims Q)"
  shows "\<forall>(p, q) \<in> set (zip (d_outdims P) (d_outdims Q)). p \<noteq> 1 \<longrightarrow> 1 < p \<and> q \<noteq> 1"
proof (rule shape_assertion_support [OF len])
  from find_matching_dense_success(4) [OF PQ]
  show "map fst (filter (\<lambda>(so, oo). so * oo \<noteq> 1)
                (zip (d_outdims P) (map (\<lambda>(keep, outdim). if keep then outdim else 1)
                           (zip (map (\<lambda>outdim. outdim > 1) (d_outdims P)) (d_outdims Q)))))
              @ map snd (filter (\<lambda>(so, oo). so * oo \<noteq> 1)
                (zip (d_outdims P) (map (\<lambda>(keep, outdim). if keep then outdim else 1)
                           (zip (map (\<lambda>outdim. outdim > 1) (d_outdims P)) (d_outdims Q)))))
              = filter (\<lambda>od. od \<noteq> 1) (d_outdims P)
                @ filter (\<lambda>od. od \<noteq> 1)
                    (map (\<lambda>(keep, outdim). if keep then outdim else 1)
                       (zip (map (\<lambda>outdim. outdim > 1) (d_outdims P)) (d_outdims Q)))"
    by (simp add: inner_sq_def normsq_def drop_outcomes_def Let_def)
qed

lemma filter_gt1_ne1:
  fixes ps :: "nat list"
  assumes "\<forall>p \<in> set ps. p \<noteq> 1 \<longrightarrow> 1 < p"
  shows "filter (\<lambda>od. od > 1) ps = filter (\<lambda>od. od \<noteq> 1) ps"
  using assms by (intro filter_cong) auto

lemma prefactors_reciprocal_dense:
  assumes PQ: "find_matching_dense P Q [] eps = Inr (mPQ, fPQ)"
    and QP: "find_matching_dense Q P [] eps' = Inr (mQP, fQP)"
    and lP: "length (d_outdims P) = length (d_hdims P)"
    and lQ: "length (d_outdims Q) = length (d_hdims Q)"
    and i: "valid_index (filter (\<lambda>od. od > 1) (d_outdims P)) i"
    and j: "valid_index (filter (\<lambda>od. od > 1) (d_outdims Q)) j"
    and x: "nentry fPQ (i @ j) = Some x"
    and y: "nentry fQP (j @ i) = Some y"
    and lo: "pow2 (- 1022) \<le> nentry (normsq P) i / nentry (normsq Q) j"
    and hi: "nentry (normsq P) i / nentry (normsq Q) j \<le> pow2 1022"
  shows "\<bar>x * y - 1\<bar> \<le> 1 / 2 ^ 51 \<and> 0 < x \<and> 0 < y
         \<and> x = f64_sqrt (f64_div (nentry (normsq P) i) (nentry (normsq Q) j))
         \<and> y = f64_sqrt (f64_div (nentry (normsq Q) j) (nentry (normsq P) i))"
proof -
  let ?ps = "d_outdims P" and ?qs = "d_outdims Q"
  have hd: "d_hdims P = d_hdims Q" by (rule find_matching_dense_success(1) [OF PQ])
  have len: "length ?ps = length ?qs" using lP lQ hd by simp
  have sPQ: "\<forall>(p, q) \<in> set (zip ?ps ?qs). p \<noteq> 1 \<longrightarrow> 1 < p \<and> q \<noteq> 1"
    by (rule success_supports [OF PQ len])
  have sQP: "\<forall>(q, p) \<in> set (zip ?qs ?ps). q \<noteq> 1 \<longrightarrow> 1 < q \<and> p \<noteq> 1"
    by (rule success_supports [OF QP len [symmetric]])
  have sw: "(q, p) \<in> set (zip ?qs ?ps)" if "(p, q) \<in> set (zip ?ps ?qs)" for p q
    using that by (auto simp: in_set_zip)
  have cQ: "\<forall>(p, q) \<in> set (zip ?ps ?qs). \<not> 1 < p \<longrightarrow> q = 1"
  proof (intro ballI, clarify)
    fix p q assume pq: "(p, q) \<in> set (zip ?ps ?qs)" and np: "\<not> 1 < p"
    show "q = 1"
    proof (rule ccontr)
      assume "q \<noteq> 1"
      with sQP sw [OF pq] have "p \<noteq> 1" by blast
      with sPQ pq np show False by blast
    qed
  qed
  have cP: "\<forall>(q, p) \<in> set (zip ?qs ?ps). \<not> 1 < q \<longrightarrow> p = 1"
  proof (intro ballI, clarify)
    fix q p assume qp: "(q, p) \<in> set (zip ?qs ?ps)" and nq: "\<not> 1 < q"
    have pq: "(p, q) \<in> set (zip ?ps ?qs)" using qp by (auto simp: in_set_zip)
    show "p = 1"
    proof (rule ccontr)
      assume "p \<noteq> 1"
      with sPQ pq have "q \<noteq> 1" by blast
      with sQP qp nq show False by blast
    qed
  qed
  have nQ: "normsq (drop_outcomes P Q) = normsq Q"
    by (rule normsq_drop_outcomes_id [OF len cQ])
  have nP: "normsq (drop_outcomes Q P) = normsq P"
    by (rule normsq_drop_outcomes_id [OF len [symmetric] cP])
  have gP: "\<forall>p \<in> set ?ps. p \<noteq> 1 \<longrightarrow> 1 < p"
  proof (intro ballI impI)
    fix p assume "p \<in> set ?ps" and p1: "p \<noteq> 1"
    then obtain k where "k < length ?ps" and "?ps ! k = p" by (auto simp: in_set_conv_nth)
    then have "(p, ?qs ! k) \<in> set (zip ?ps ?qs)" using len by (auto simp: in_set_zip)
    with sPQ p1 show "1 < p" by blast
  qed
  have gQ: "\<forall>q \<in> set ?qs. q \<noteq> 1 \<longrightarrow> 1 < q"
  proof (intro ballI impI)
    fix q assume "q \<in> set ?qs" and q1: "q \<noteq> 1"
    then obtain k where "k < length ?qs" and "?qs ! k = q" by (auto simp: in_set_conv_nth)
    then have "(q, ?ps ! k) \<in> set (zip ?qs ?ps)" using len by (auto simp: in_set_zip)
    with sQP q1 show "1 < q" by blast
  qed
  have shP: "nshape (normsq P) = filter (\<lambda>od. od > 1) ?ps"
    using filter_gt1_ne1 [OF gP] by (simp add: normsq_def)
  have shQ: "nshape (normsq Q) = filter (\<lambda>od. od > 1) ?qs"
    using filter_gt1_ne1 [OF gQ] by (simp add: normsq_def)
  have li: "length i = length (nshape (normsq P))" using i shP by (simp add: valid_index_def)
  have lj: "length j = length (nshape (normsq Q))" using j shQ by (simp add: valid_index_def)
  have xv: "x = f64_sqrt (f64_div (nentry (normsq P) i) (nentry (normsq Q) j))"
    using find_matching_dense_success(5) [OF PQ x] li by (simp add: nQ)
  have yv: "y = f64_sqrt (f64_div (nentry (normsq Q) j) (nentry (normsq P) i))"
    using find_matching_dense_success(5) [OF QP y] lj by (simp add: nP)
  have "i \<in> set (all_indices (nshape (normsq P)))"
    using i shP by (simp add: all_indices_valid)
  with find_matching_dense_success(2) [OF PQ] have a: "0 < nentry (normsq P) i"
    by (simp add: nd_all_def)
  have "j \<in> set (all_indices (nshape (normsq Q)))"
    using j shQ by (simp add: all_indices_valid)
  with find_matching_dense_success(2) [OF QP] have b: "0 < nentry (normsq Q) j"
    by (simp add: nd_all_def)
  from reciprocal_rounding [OF a b lo hi] xv yv
  show ?thesis by simp
qed

text \<open>
  C3 (as amended). For every pair of MPPovms \<open>P\<close> and \<open>Q\<close> for which both
  \<^verbatim>\<open>P.find_matching_elements(Q)\<close> and \<^verbatim>\<open>Q.find_matching_elements(P)\<close> succeed, and
  every pair of outcome multi-indices \<open>i\<close> of \<open>P\<close> and \<open>j\<close> of \<open>Q\<close> at which both
  prefactors are defined (not \<^verbatim>\<open>nan\<close>): \<open>prefactor_PQ[i, j]\<close> is the rounded root of
  the rounded quotient of the squared norms of the two elements,
  \<open>prefactor_QP[j, i]\<close> that of the inverse quotient, both are positive, and their
  product differs from 1 by at most \<open>1 / 2 ^ 51\<close>, provided the quotient of the
  squared norms lies between \<open>pow2 (-1022)\<close> and \<open>pow2 1022\<close>, where binary64
  neither underflows nor overflows. (Both calls can only succeed when \<open>P\<close> and \<open>Q\<close> are
  measured on the same sites, by the shape assertion of line 321.)
\<close>

theorem prefactors_reciprocal:
  assumes "find_matching_elements P Q [] eps = Inr (match_PQ, prefactor_PQ)"
    and "find_matching_elements Q P [] eps' = Inr (match_QP, prefactor_QP)"
    and "valid_index (nsoutdims P) i"
    and "valid_index (nsoutdims Q) j"
    and "nentry prefactor_PQ (i @ j) = Some x"
    and "nentry prefactor_QP (j @ i) = Some y"
    and "pow2 (- 1022) \<le> nentry (normsq (dense_of P)) i / nentry (normsq (dense_of Q)) j"
    and "nentry (normsq (dense_of P)) i / nentry (normsq (dense_of Q)) j \<le> pow2 1022"
  shows "\<bar>x * y - 1\<bar> \<le> 1 / 2 ^ 51 \<and> 0 < x \<and> 0 < y
         \<and> x = f64_sqrt (f64_div (nentry (normsq (dense_of P)) i) (nentry (normsq (dense_of Q)) j))
         \<and> y = f64_sqrt (f64_div (nentry (normsq (dense_of Q)) j) (nentry (normsq (dense_of P)) i))"
proof (rule prefactors_reciprocal_dense)
  show "find_matching_dense (dense_of P) (dense_of Q) [] eps = Inr (match_PQ, prefactor_PQ)"
    using assms(1) by (simp add: find_matching_elements_def)
  show "find_matching_dense (dense_of Q) (dense_of P) [] eps' = Inr (match_QP, prefactor_QP)"
    using assms(2) by (simp add: find_matching_elements_def)
  show "length (d_outdims (dense_of P)) = length (d_hdims (dense_of P))"
    by (simp add: dense_of_def outdims_def hdims_def)
  show "length (d_outdims (dense_of Q)) = length (d_hdims (dense_of Q))"
    by (simp add: dense_of_def outdims_def hdims_def)
  show "valid_index (filter (\<lambda>od. od > 1) (d_outdims (dense_of P))) i"
    using assms(3) by (simp add: dense_of_def nsoutdims_filter)
  show "valid_index (filter (\<lambda>od. od > 1) (d_outdims (dense_of Q))) j"
    using assms(4) by (simp add: dense_of_def nsoutdims_filter)
  show "nentry prefactor_PQ (i @ j) = Some x" by (rule assms(5))
  show "nentry prefactor_QP (j @ i) = Some y" by (rule assms(6))
  show "pow2 (- 1022) \<le> nentry (normsq (dense_of P)) i / nentry (normsq (dense_of Q)) j"
    by (rule assms(7))
  show "nentry (normsq (dense_of P)) i / nentry (normsq (dense_of Q)) j \<le> pow2 1022"
    by (rule assms(8))
qed

lemma upt_3: "[0..<3] = [0, 1, 2]" by (simp add: numeral_3_eq_3)

lemma all_indices_2: "all_indices [2] = [[0], [1]]" by (simp add: upt_2)
lemma all_indices_3: "all_indices [3] = [[0], [1], [2]]" by (simp add: upt_3)

lemma one_site_entry:
  assumes "shape s = [1, od, 2, 2, 1]"
  shows "d_elem (dense_of [s]) [i] [a] [b] = dat s ! ((i * 2 + a) * 2 + b)"
  using assms by (simp add: dense_of_def to_dense_def lt_entry_def ravel_index_def)

lemma one_site_dims:
  assumes "shape s = [1, od, 2, 2, 1]"
  shows "d_outdims (dense_of [s]) = [od]" and "d_hdims (dense_of [s]) = [2]"
  using assms by (simp_all add: dense_of_def outdims_def hdims_def)

lemma one_site_inner:
  assumes "shape s = [1, od, 2, 2, 1]" and "shape t = [1, od', 2, 2, 1]"
  shows "elem_inner (dense_of [s]) (dense_of [t]) [i] [j]
           = cnj (dat s ! (4 * i)) * dat t ! (4 * j)
             + cnj (dat s ! (4 * i + 1)) * dat t ! (4 * j + 1)
             + cnj (dat s ! (4 * i + 2)) * dat t ! (4 * j + 2)
             + cnj (dat s ! (4 * i + 3)) * dat t ! (4 * j + 3)"
  unfolding elem_inner_def one_site_dims [OF assms(1)] all_indices_2
  by (simp add: one_site_entry [OF assms(1)] one_site_entry [OF assms(2)] algebra_simps
        numeral_3_eq_3)

lemma shape_z: "shape z_site = [1, 2, 2, 2, 1]" by (simp add: z_site_def)
lemma shape_half: "shape half_site = [1, 3, 2, 2, 1]" by (simp add: half_site_def)
lemma shape_skew: "shape skew_site = [1, 3, 2, 2, 1]" by (simp add: skew_site_def)

lemma test_zz: "elem_inner (dense_of [z_site]) (dense_of [z_site]) [0] [0] = 1"
  "elem_inner (dense_of [z_site]) (dense_of [z_site]) [Suc 0] [Suc 0] = 1"
  unfolding one_site_inner [OF shape_z shape_z] by (simp_all add: z_site_def)

lemma test_hh:
  "elem_inner (dense_of [half_site]) (dense_of [half_site]) [0] [0] = 1 / 4"
  "elem_inner (dense_of [half_site]) (dense_of [half_site]) [Suc 0] [Suc 0] = 1 / 4"
  "elem_inner (dense_of [half_site]) (dense_of [half_site]) [2] [2] = 1 / 2"
  unfolding one_site_inner [OF shape_half shape_half] by (simp_all add: half_site_def)

lemma test_zh:
  "elem_inner (dense_of [z_site]) (dense_of [half_site]) [0] [0] = 1 / 2"
  "elem_inner (dense_of [z_site]) (dense_of [half_site]) [0] [Suc 0] = 0"
  "elem_inner (dense_of [z_site]) (dense_of [half_site]) [0] [2] = 1 / 2"
  "elem_inner (dense_of [z_site]) (dense_of [half_site]) [Suc 0] [0] = 0"
  "elem_inner (dense_of [z_site]) (dense_of [half_site]) [Suc 0] [Suc 0] = 1 / 2"
  "elem_inner (dense_of [z_site]) (dense_of [half_site]) [Suc 0] [2] = 1 / 2"
  unfolding one_site_inner [OF shape_z shape_half] by (simp_all add: z_site_def half_site_def)


lemma test_hz:
  "elem_inner (dense_of [half_site]) (dense_of [z_site]) [0] [0] = 1 / 2"
  "elem_inner (dense_of [half_site]) (dense_of [z_site]) [0] [Suc 0] = 0"
  "elem_inner (dense_of [half_site]) (dense_of [z_site]) [Suc 0] [0] = 0"
  "elem_inner (dense_of [half_site]) (dense_of [z_site]) [Suc 0] [Suc 0] = 1 / 2"
  "elem_inner (dense_of [half_site]) (dense_of [z_site]) [2] [0] = 1 / 2"
  "elem_inner (dense_of [half_site]) (dense_of [z_site]) [2] [Suc 0] = 1 / 2"
  unfolding one_site_inner [OF shape_half shape_z] by (simp_all add: z_site_def half_site_def)

lemma one_site_drop:
  assumes "shape s = [1, od, 2, 2, 1]" and "1 < od" and "shape t = [1, od', 2, 2, 1]"
  shows "d_elem (drop_outcomes (dense_of [s]) (dense_of [t])) [j] a b = d_elem (dense_of [t]) [j] a b"
    and "d_outdims (drop_outcomes (dense_of [s]) (dense_of [t])) = [od']"
    and "d_hdims (drop_outcomes (dense_of [s]) (dense_of [t])) = [2]"
  unfolding drop_outcomes_def Let_def one_site_dims [OF assms(1)] one_site_dims [OF assms(3)]
  using assms(2) by simp_all

lemma one_site_inner_drop:
  assumes "shape s = [1, od, 2, 2, 1]" and "1 < od" and "shape t = [1, od', 2, 2, 1]"
  shows "elem_inner (dense_of [s]) (drop_outcomes (dense_of [s]) (dense_of [t])) [i] [j]
           = elem_inner (dense_of [s]) (dense_of [t]) [i] [j]"
    and "elem_inner (drop_outcomes (dense_of [s]) (dense_of [t]))
           (drop_outcomes (dense_of [s]) (dense_of [t])) [j] [j]
           = elem_inner (dense_of [t]) (dense_of [t]) [j] [j]"
  unfolding elem_inner_def one_site_drop [OF assms] one_site_dims [OF assms(1)]
    one_site_dims [OF assms(3)]
  by simp_all

lemma np_abs_c128_real:
  assumes "Im z = 0"
  shows "np_abs (c128 z) = fl64 \<bar>fl64 (Re z)\<bar>"
proof -
  have "c128 z = Complex (fl64 (Re z)) 0" using assms by (simp add: c128_def)
  then show ?thesis by (simp add: np_abs_def complex_norm)
qed

lemma one_site_normsq:
  assumes "shape s = [1, od, 2, 2, 1]" and "1 < od"
  shows "nshape (normsq (dense_of [s])) = [od]"
    and "nentry (normsq (dense_of [s])) [i]
           = fl64 (Re (elem_inner (dense_of [s]) (dense_of [s]) [i] [i]))"
  unfolding normsq_def one_site_dims [OF assms(1)] using assms(2) by (simp_all add: unprune_def)

lemma one_site_normsq_drop:
  assumes "shape s = [1, od, 2, 2, 1]" and "1 < od" and "shape t = [1, od', 2, 2, 1]" and "1 < od'"
  shows "nshape (normsq (drop_outcomes (dense_of [s]) (dense_of [t]))) = [od']"
    and "nentry (normsq (drop_outcomes (dense_of [s]) (dense_of [t]))) [j]
           = fl64 (Re (elem_inner (dense_of [t]) (dense_of [t]) [j] [j]))"
  unfolding normsq_def one_site_drop [OF assms(1-3)] using assms(4)
  by (simp_all add: unprune_def one_site_inner_drop [OF assms(1-3)])

lemma one_site_inner_sq:
  assumes "shape s = [1, od, 2, 2, 1]" and "1 < od" and "shape t = [1, od', 2, 2, 1]" and "1 < od'"
  shows "nshape (inner_sq (dense_of [s]) (drop_outcomes (dense_of [s]) (dense_of [t]))) = [od, od']"
    and "nentry (inner_sq (dense_of [s]) (drop_outcomes (dense_of [s]) (dense_of [t]))) [i, j]
           = f64_mul (np_abs (c128 (elem_inner (dense_of [s]) (dense_of [t]) [i] [j])))
                     (np_abs (c128 (elem_inner (dense_of [s]) (dense_of [t]) [i] [j])))"
  unfolding inner_sq_def Let_def one_site_drop [OF assms(1-3)] one_site_dims [OF assms(1)]
  using assms(2) assms(4) by (simp_all add: one_site_inner_drop [OF assms(1-3)])

lemma all_indices_2_3:
  "all_indices [2, 3] = [[0, 0], [0, 1], [0, 2], [1, 0], [1, 1], [1, 2]]"
  by (simp add: upt_2 upt_3)

lemma all_indices_3_2:
  "all_indices [3, 2] = [[0, 0], [0, 1], [1, 0], [1, 1], [2, 0], [2, 1]]"
  by (simp add: upt_2 upt_3)

lemma fme_z_half:
  "\<exists>m f. find_matching_elements [z_site] [half_site] [] (1 / 10 ^ 10) = Inr (m, f)
         \<and> nentry f [0, 0] = Some 2"
  unfolding find_matching_elements_def find_matching_dense_def Let_def
    one_site_normsq [OF shape_z] one_site_normsq_drop [OF shape_z _ shape_half]
    one_site_inner_sq [OF shape_z _ shape_half]
  by (simp add: one_site_dims [OF shape_z] one_site_dims [OF shape_half] nd_all_def
        one_site_normsq [OF shape_z] one_site_normsq_drop [OF shape_z _ shape_half]
        one_site_inner_sq [OF shape_z _ shape_half]
        all_indices_2 all_indices_3 all_indices_2_3 test_zz test_hh test_zh
        real_sqrt_divide power2_eq_square np_abs_c128_real f64_ops fl64_small del: all_indices.simps)

lemma fme_half_z:
  "\<exists>m f. find_matching_elements [half_site] [z_site] [] (1 / 10 ^ 10) = Inr (m, f)
         \<and> nentry f [0, 0] = Some (1 / 2)"
  unfolding find_matching_elements_def find_matching_dense_def Let_def
    one_site_normsq [OF shape_half] one_site_normsq_drop [OF shape_half _ shape_z]
    one_site_inner_sq [OF shape_half _ shape_z]
  by (simp add: one_site_dims [OF shape_z] one_site_dims [OF shape_half] nd_all_def
        one_site_normsq [OF shape_half] one_site_normsq_drop [OF shape_half _ shape_z]
        one_site_inner_sq [OF shape_half _ shape_z]
        all_indices_2 all_indices_3 all_indices_3_2 test_zz test_hh test_hz
        real_sqrt_divide power2_eq_square np_abs_c128_real f64_ops fl64_small del: all_indices.simps)

lemma test_zz_off:
  "elem_inner (dense_of [z_site]) (dense_of [z_site]) [0] [Suc 0] = 0"
  "elem_inner (dense_of [z_site]) (dense_of [z_site]) [Suc 0] [0] = 0"
  unfolding one_site_inner [OF shape_z shape_z] by (simp_all add: z_site_def)

lemma all_indices_2_2: "all_indices [2, 2] = [[0, 0], [0, 1], [1, 0], [1, 1]]"
  by (simp add: upt_2)

lemma fme_z_z:
  "\<exists>m f. find_matching_elements [z_site] [z_site] [] (1 / 10 ^ 10) = Inr (m, f)"
  unfolding find_matching_elements_def find_matching_dense_def Let_def
    one_site_normsq [OF shape_z] one_site_normsq_drop [OF shape_z _ shape_z]
    one_site_inner_sq [OF shape_z _ shape_z]
  by (simp add: one_site_dims [OF shape_z] nd_all_def
        one_site_normsq [OF shape_z] one_site_normsq_drop [OF shape_z _ shape_z]
        one_site_inner_sq [OF shape_z _ shape_z]
        all_indices_2 all_indices_2_2 test_zz test_zz_off
        power2_eq_square np_abs_c128_real f64_ops fl64_small del: all_indices.simps)

theorem prefactors_reciprocal_witness:
  "\<exists>m f m' f'.
      find_matching_elements [z_site] [half_site] [] (1 / 10 ^ 10) = Inr (m, f)
    \<and> find_matching_elements [half_site] [z_site] [] (1 / 10 ^ 10) = Inr (m', f')
    \<and> nentry f [0, 0] = Some 2 \<and> nentry f' [0, 0] = Some (1 / 2)
    \<and> nentry (normsq (dense_of [z_site])) [0] / nentry (normsq (dense_of [half_site])) [0] = 4
    \<and> \<bar>(2::real) * (1 / 2) - 1\<bar> \<le> 1 / 2 ^ 51"
proof -
  from fme_z_half obtain m f where
    PQ: "find_matching_elements [z_site] [half_site] [] (1 / 10 ^ 10) = Inr (m, f)"
    and x: "nentry f [0, 0] = Some 2" by blast
  from fme_half_z obtain m' f' where
    QP: "find_matching_elements [half_site] [z_site] [] (1 / 10 ^ 10) = Inr (m', f')"
    and y: "nentry f' [0, 0] = Some (1 / 2)" by blast
  have i: "valid_index (nsoutdims [z_site]) [0]"
    by (simp add: valid_index_def nsoutdims_def z_site_def)
  have j: "valid_index (nsoutdims [half_site]) [0]"
    by (simp add: valid_index_def nsoutdims_def half_site_def)
  have x': "nentry f ([0] @ [0]) = Some 2" using x by simp
  have y': "nentry f' ([0] @ [0]) = Some (1 / 2)" using y by simp
  have r: "nentry (normsq (dense_of [z_site])) [0] / nentry (normsq (dense_of [half_site])) [0] = 4"
    by (simp add: one_site_normsq [OF shape_z] one_site_normsq [OF shape_half] test_zz test_hh
          fl64_small)
  have lo: "pow2 (- 1022)
              \<le> nentry (normsq (dense_of [z_site])) [0] / nentry (normsq (dense_of [half_site])) [0]"
    unfolding r by (simp add: pow2_def)
  have hi: "nentry (normsq (dense_of [z_site])) [0] / nentry (normsq (dense_of [half_site])) [0]
              \<le> pow2 1022"
    unfolding r by (simp add: pow2_def)
  from prefactors_reciprocal [OF PQ QP i j x' y' lo hi]
  have "\<bar>(2::real) * (1 / 2) - 1\<bar> \<le> 1 / 2 ^ 51" by blast
  with PQ QP x y r show ?thesis by blast
qed

text \<open>
  C3 (as stated) fails in binary64. Let \<open>P\<close> be the one-site Z measurement and \<open>Q\<close> the
  one-site POVM with the elements \<open>0.19 |0><0|\<close>, \<open>0.81 |0><0|\<close> and \<open>|1><1|\<close>.
  Both calls succeed and flag the pair of the first elements. The prefactor from
  \<open>P\<close> to \<open>Q\<close> is \<open>5.263157894736842\<close> and the one from \<open>Q\<close> to \<open>P\<close> is \<open>0.19\<close>,
  whose inverse is not a binary64 number; rounded, it is \<open>5.2631578947368425\<close>, the
  next binary64 number above the first prefactor.
\<close>

theorem prefactors_not_reciprocal_counterexample:
  "prefactor_at [z_site] [skew_site] [0, 0] = Inr (Some (5925788983382231 / 2 ^ 50))
   \<and> prefactor_at [skew_site] [z_site] [0, 0] = Inr (Some (3422735716801577 / 2 ^ 54))
   \<and> (5925788983382231 / 2 ^ 50 :: real) \<noteq> 1 / (3422735716801577 / 2 ^ 54)
   \<and> f64_div 1 (3422735716801577 / 2 ^ 54) = 5925788983382232 / 2 ^ 50
   \<and> (5925788983382231 / 2 ^ 50 :: real) \<noteq> 5925788983382232 / 2 ^ 50"
proof -
  define t :: real where "t = 3422735716801577 / 2 ^ 54"
  define t' :: real where "t' = 1823957849085051 / 2 ^ 51"
  define o0 :: real where "o0 = 5202558289538397 / 2 ^ 57"
  define o1 :: real where "o1 = 2954811715517783 / 2 ^ 52"
  define r0 :: real where "r0 = 7797090767608199 / 2 ^ 48"
  define x0 :: real where "x0 = 5925788983382231 / 2 ^ 50"
  have pos: "0 < t" "0 < t'" "0 < o0" "0 < o1" "o0 \<noteq> 0" "o1 \<noteq> 0" "\<bar>t\<bar> = t" "\<bar>t'\<bar> = t'"
    by (simp_all add: t_def t'_def o0_def o1_def)
  have ft: "fl64 t = t" "fl64 t' = t'" "fl64 o0 = o0" "fl64 o1 = o1"
    using fl64_exact [of 3422735716801577 "- 54"] fl64_exact [of 1823957849085051 "- 51"]
      fl64_exact [of 5202558289538397 "- 57"] fl64_exact [of 2954811715517783 "- 52"]
    by (simp_all add: t_def t'_def o0_def o1_def pow2_def)
  have m0: "fl64 (t * t) = o0"
    using fl64_posI [of 5202558289538397 "- 57" "t * t"] by (simp add: t_def o0_def pow2_def)
  have m1: "fl64 (t' * t') = o1"
    using fl64_posI [of 5909623431035566 "- 53" "t' * t'"] by (simp add: t'_def o1_def pow2_def)
  have d0: "fl64 (1 / o0) = r0"
    using fl64_posI [of 7797090767608199 "- 48" "1 / o0"] by (simp add: o0_def r0_def pow2_def)
  have s0: "fl64 (sqrt r0) = x0"
    using fl64_sqrtI [of 5925788983382231 "- 50" r0]
    by (simp add: r0_def x0_def pow2_def power2_eq_square)
  have y0: "fl64 (sqrt o0) = t"
    using fl64_sqrtI [of 6845471433603154 "- 55" o0]
    by (simp add: o0_def t_def pow2_def power2_eq_square)
  have dz: "dat z_site = [1, 0, 0, 0, 0, 0, 0, 1]" by (simp add: z_site_def)
  have ds: "dat skew_site = [complex_of_real t, 0, 0, 0, complex_of_real t', 0, 0, 0, 0, 0, 0, 1]"
    by (simp add: skew_site_def t_def t'_def)
  have PQ: "prefactor_at [z_site] [skew_site] [0, 0] = Inr (Some x0)"
    unfolding prefactor_at_def find_matching_elements_def find_matching_dense_def Let_def
      one_site_normsq [OF shape_z] one_site_normsq_drop [OF shape_z _ shape_skew]
      one_site_inner_sq [OF shape_z _ shape_skew]
    by (simp add: one_site_dims [OF shape_z] one_site_dims [OF shape_skew] nd_all_def
          one_site_normsq [OF shape_z] one_site_normsq_drop [OF shape_z _ shape_skew]
          one_site_inner_sq [OF shape_z _ shape_skew]
          one_site_inner [OF shape_z shape_z] one_site_inner [OF shape_z shape_skew]
          one_site_inner [OF shape_skew shape_skew] dz ds
          all_indices_2 all_indices_3 all_indices_2_3
          np_abs_c128_real f64_ops fl64_small pos ft m0 m1 d0 s0 del: all_indices.simps)
  have QP: "prefactor_at [skew_site] [z_site] [0, 0] = Inr (Some t)"
    unfolding prefactor_at_def find_matching_elements_def find_matching_dense_def Let_def
      one_site_normsq [OF shape_skew] one_site_normsq_drop [OF shape_skew _ shape_z]
      one_site_inner_sq [OF shape_skew _ shape_z]
    by (simp add: one_site_dims [OF shape_z] one_site_dims [OF shape_skew] nd_all_def
          one_site_normsq [OF shape_skew] one_site_normsq_drop [OF shape_skew _ shape_z]
          one_site_inner_sq [OF shape_skew _ shape_z]
          one_site_inner [OF shape_z shape_z] one_site_inner [OF shape_skew shape_z]
          one_site_inner [OF shape_skew shape_skew] dz ds
          all_indices_2 all_indices_3 all_indices_3_2
          np_abs_c128_real f64_ops fl64_small pos ft m0 m1 y0 del: all_indices.simps)
  have ne: "(5925788983382231 / 2 ^ 50 :: real) \<noteq> 1 / (3422735716801577 / 2 ^ 54)" by simp
  have iv: "f64_div 1 (3422735716801577 / 2 ^ 54) = 5925788983382232 / 2 ^ 50"
    unfolding f64_div_def
    using fl64_posI [of 5925788983382232 "- 50" "1 / (3422735716801577 / 2 ^ 54)"]
    by (simp add: pow2_def)
  have ne': "(5925788983382231 / 2 ^ 50 :: real) \<noteq> 5925788983382232 / 2 ^ 50" by simp
  show ?thesis using PQ QP ne iv ne' unfolding x0_def t_def by blast
qed

text \<open>
  C4. With \<^verbatim>\<open>exclude_dup\<close> containing \<^verbatim>\<open>'self'\<close> or \<^verbatim>\<open>'other'\<close> the call is to
  run the duplicate checks and otherwise return what it returns for
  \<^verbatim>\<open>exclude_dup=()\<close>. The code raises \<^verbatim>\<open>NameError\<close> for every non-empty
  \<^verbatim>\<open>exclude_dup\<close>, on POVMs of equal Hilbert space dimensions: line 288 reads the
  undefined name \<^verbatim>\<open>exclude_duplicates\<close>. On the one-site Z measurement the call
  with \<^verbatim>\<open>exclude_dup=('self',)\<close> raises, where the call with \<^verbatim>\<open>exclude_dup=()\<close>
  returns.
\<close>

theorem exclude_dup_raises_NameError:
  assumes "hdims self = hdims other" and "exclude_dup \<noteq> []"
  shows "find_matching_elements self other exclude_dup eps = Inl NameError"
  using assms by (simp add: find_matching_elements_def find_matching_dense_def dense_of_def)

theorem exclude_dup_raises_NameError_witness:
  "find_matching_elements [z_site] [z_site] [''self''] (1 / 10 ^ 10) = Inl NameError
   \<and> (\<exists>m f. find_matching_elements [z_site] [z_site] [] (1 / 10 ^ 10) = Inr (m, f))"
proof -
  have h1: "hdims [z_site] = hdims [z_site]" by simp
  have h2: "[''self''] \<noteq> []" by simp
  from exclude_dup_raises_NameError [OF h1 h2] fme_z_z show ?thesis by blast
qed

end
